theory Spec2Isabelle
  imports Complex_Main "HOL-Library.Word"
begin

unbundle bit_operations_syntax

section \<open>JavaScript integer operators\<close>

text \<open>
  The decoder works on JavaScript numbers that hold integers. \<open>+\<close>, \<open>-\<close> and \<open>*\<close> are exact
  on them (every value met here is far below \<open>2^53\<close>); the shift and bitwise operators
  first convert their operand to a signed 32-bit integer (ToInt32) and take the shift
  count modulo 32.
\<close>

definition toInt32 :: "int \<Rightarrow> int" where
  "toInt32 x = (x + 2 ^ 31) mod 2 ^ 32 - 2 ^ 31"

definition js_shl :: "int \<Rightarrow> nat \<Rightarrow> int" where
  "js_shl x n = toInt32 (toInt32 x * 2 ^ (n mod 32))"

definition js_sar :: "int \<Rightarrow> nat \<Rightarrow> int" where
  "js_sar x n = toInt32 x div 2 ^ (n mod 32)"

definition js_or :: "int \<Rightarrow> int \<Rightarrow> int" where
  "js_or x y = toInt32 x OR toInt32 y"

definition js_and :: "int \<Rightarrow> int \<Rightarrow> int" where
  "js_and x y = toInt32 x AND toInt32 y"

section \<open>Errors\<close>

text \<open>
  The only exception the modelled code can raise is the \<open>RangeError\<close> of
  \<open>DataView.getUint8\<close>/\<open>getUint16\<close> for an offset outside the buffer.
  \<open>Diverges\<close> marks a call that never returns in the source (unbounded recursion or loop).
\<close>

datatype error = RangeError | Diverges

definition bindE :: "error + 'a \<Rightarrow> ('a \<Rightarrow> error + 'b) \<Rightarrow> error + 'b" where
  "bindE m f = (case m of Inl e \<Rightarrow> Inl e | Inr x \<Rightarrow> f x)"

section \<open>The bit reader (reader.js and its successor with peek/consumeBits)\<close>

text \<open>
  \<open>DataViewReader\<close>: \<open>view\<close> is the byte buffer, \<open>index\<close> the offset of the last byte
  looked at (\<open>-1\<close> after \<open>reset\<close>), \<open>byte\<close>/\<open>cnt\<close> the shift register of \<open>nextBit\<close>,
  \<open>buffer\<close>/\<open>buffSize\<close> the look-ahead register of \<open>peek\<close>.
\<close>

record reader =
  view :: "8 word list"
  index :: int
  byte :: int
  cnt :: nat
  buffer :: int
  buffSize :: int

text \<open>
  The part of the image structure that the bit reader writes: \<open>img.scan.dcpred\<close> (an array
  indexed by component id, \<open>None\<close> for a hole) and \<open>img.frame.frameY\<close>.
\<close>

record img =
  dcpred :: "int option list"
  frameY :: int

definition reset :: "8 word list \<Rightarrow> reader" where
  "reset v = \<lparr>view = v, index = -1, byte = 0, cnt = 0, buffer = 0, buffSize = 0\<rparr>"

definition nextByte :: "reader \<Rightarrow> error + int \<times> reader" where
  "nextByte r =
     (let i = index r + 1
      in if 0 \<le> i \<and> i < int (length (view r))
         then Inr (uint (view r ! nat i), r\<lparr>index := i\<rparr>)
         else Inl RangeError)"

definition nextWord :: "reader \<Rightarrow> error + int \<times> reader" where
  "nextWord r =
     (let i = index r + 1
      in if 0 \<le> i \<and> i + 1 < int (length (view r))
         then Inr (uint (view r ! nat i) * 256 + uint (view r ! nat (i + 1)), r\<lparr>index := i + 1\<rparr>)
         else Inl RangeError)"

definition hasMoreBytes :: "reader \<Rightarrow> bool" where
  "hasMoreBytes r = (index r < int (length (view r)) - 1)"


text \<open>\<open>parseDNL\<close> (jsjpeg.js): reads the segment length and the new number of lines.\<close>

definition parseDNL :: "reader \<times> img \<Rightarrow> error + reader \<times> img" where
  "parseDNL st =
     (case st of (r, im) \<Rightarrow>
        bindE (nextWord r) (\<lambda>(len, r1).
        bindE (nextWord r1) (\<lambda>(fy, r2).
        Inr (r2, im\<lparr>frameY := fy\<rparr>))))"

text \<open>\<open>Array.prototype.fill(0)\<close>: every index below the length, holes included, becomes 0.\<close>

definition fill0 :: "int option list \<Rightarrow> int option list" where
  "fill0 xs = replicate (length xs) (Some 0)"

text \<open>\<open>nextBit(img)\<close>, the NEXTBIT procedure (F.2.2.5) with marker handling.\<close>

definition loadByte :: "reader \<times> img \<Rightarrow> error + reader \<times> img" where
  "loadByte st =
     (case st of (r, im) \<Rightarrow>
        bindE (nextByte r) (\<lambda>(b, r1).
        let r2 = r1\<lparr>byte := b, cnt := 8\<rparr>
        in if b = 0xFF
           then bindE (nextByte r2) (\<lambda>(byte2, r3).
                if byte2 \<noteq> 0
                then if byte2 = 0xDC then parseDNL (r3, im)
                     else if 0xD0 \<le> byte2 \<and> byte2 \<le> 0xD7
                     then bindE (nextByte (r3\<lparr>cnt := 1\<rparr>)) (\<lambda>(b3, r4).
                          Inr (r4\<lparr>byte := b3\<rparr>, im\<lparr>dcpred := fill0 (dcpred im)\<rparr>))
                     else Inr (r3, im)
                else Inr (r3, im))
           else Inr (r2, im)))"

definition nextBit :: "reader \<times> img \<Rightarrow> error + int \<times> (reader \<times> img)" where
  "nextBit st =
     bindE (if cnt (fst st) = 0 then loadByte st else Inr st) (\<lambda>(r, im).
       let b = js_sar (byte r) 7
       in Inr (b, (r\<lparr>cnt := cnt r - 1, byte := js_and (js_shl (byte r) 1) 0xFF\<rparr>, im)))"

text \<open>
  \<open>peek(img, numBits)\<close>: fills the look-ahead register until it holds \<open>numBits\<close> bits and
  returns the top \<open>numBits\<close> of them without consuming.
\<close>

definition peekFill :: "reader \<times> img \<Rightarrow> error + reader \<times> img" where
  "peekFill st =
     (case st of (r, im) \<Rightarrow>
        if \<not> hasMoreBytes r
        then Inr (r\<lparr>buffer := js_or (js_shl (buffer r) 8) 0xFF, buffSize := buffSize r + 8\<rparr>, im)
        else bindE (nextByte r) (\<lambda>(b, r1).
             let r2 = r1\<lparr>buffer := js_or (js_shl (buffer r1) 8) b, buffSize := buffSize r1 + 8\<rparr>
             in if b = 0xFF
                then bindE (nextByte r2) (\<lambda>(byte2, r3).
                     if byte2 \<noteq> 0
                     then if byte2 = 0xDC then parseDNL (r3, im)
                          else if 0xD0 \<le> byte2 \<and> byte2 \<le> 0xD7
                          then Inr (r3\<lparr>buffer := js_or (js_shl (buffer r3) 8) b,
                                      buffSize := buffSize r3 + 8, index := index r3 - 2\<rparr>, im)
                          else Inr (r3, im)
                     else Inr (r3, im))
                else Inr (r2, im)))"

lemma peekFill_buffSize:
  "peekFill (r, im) = Inr (r', im') \<Longrightarrow> buffSize r < buffSize r'"
  by (auto simp: peekFill_def bindE_def nextByte_def nextWord_def parseDNL_def Let_def
           split: if_splits sum.splits prod.splits)

function peekLoop :: "nat \<Rightarrow> reader \<times> img \<Rightarrow> error + reader \<times> img" where
  "peekLoop numBits st =
     (if buffSize (fst st) < int numBits
      then (case peekFill st of Inl e \<Rightarrow> Inl e | Inr st' \<Rightarrow> peekLoop numBits st')
      else Inr st)"
  by pat_completeness auto
termination
proof (relation "measure (\<lambda>(n, st). nat (int n - buffSize (fst st)))", goal_cases)
  case 1
  show ?case by simp
next
  case (2 numBits st st')
  obtain r im where st: "st = (r, im)" by (cases st)
  obtain r' im' where st': "st' = (r', im')" by (cases st')
  from 2 st st' have "buffSize r < buffSize r'"
    using peekFill_buffSize by simp
  with 2 st st' show ?case by simp
qed

declare peekLoop.simps [simp del]

definition peek :: "nat \<Rightarrow> reader \<times> img \<Rightarrow> error + int \<times> (reader \<times> img)" where
  "peek numBits st =
     bindE (peekLoop numBits st) (\<lambda>(r, im).
       Inr (js_and (js_sar (buffer r) (nat (buffSize r - int numBits))) (js_shl 1 numBits - 1),
            (r, im)))"

text \<open>
  \<open>consumeBits(numBits)\<close>. When more bits are asked for than are buffered, the source
  calls \<open>this.peek(numBits)\<close> with the count in the place of \<open>img\<close>; the count parameter
  of that call is then \<open>undefined\<close>, its loop condition is false at once and the call
  changes nothing, so only the subtraction remains.
\<close>

definition consumeBits :: "nat \<Rightarrow> reader \<Rightarrow> reader" where
  "consumeBits numBits r = r\<lparr>buffSize := buffSize r - int numBits\<rparr>"

text \<open>Successive single-bit reads from a bit source, collected in order.\<close>

fun read_bits :: "('s \<Rightarrow> error + int \<times> 's) \<Rightarrow> nat \<Rightarrow> 's \<Rightarrow> error + int list \<times> 's" where
  "read_bits nb 0 s = Inr ([], s)"
| "read_bits nb (Suc n) s =
     (case nb s of
        Inl e \<Rightarrow> Inl e
      | Inr (b, s') \<Rightarrow>
          (case read_bits nb n s' of Inl e \<Rightarrow> Inl e | Inr (bs, s'') \<Rightarrow> Inr (b # bs, s'')))"

section \<open>Arrays of numbers; dequantize, reorder, levelShift (jsjpeg.js)\<close>

text \<open>
  An element of a JavaScript array is \<open>Some x\<close> for a value \<open>x\<close>, or \<open>None\<close> for
  \<open>undefined\<close> or a hole of a sparse array. In an array of numbers (\<open>jsnum list\<close>)
  \<open>Some n\<close> is the integer \<open>n\<close> and \<open>None\<close> also stands for \<open>NaN\<close>, which is what
  arithmetic makes of \<open>undefined\<close>. A read beyond the length yields \<open>undefined\<close>;
  a write beyond the length extends the array, leaving holes.
\<close>

type_synonym jsnum = "int option"

definition arr_get :: "'a option list \<Rightarrow> nat \<Rightarrow> 'a option" where
  "arr_get xs i = (if i < length xs then xs ! i else None)"

definition arr_set :: "'a option list \<Rightarrow> nat \<Rightarrow> 'a option \<Rightarrow> 'a option list" where
  "arr_set xs i v =
     (if i < length xs then xs[i := v] else xs @ replicate (i - length xs) None @ [v])"

text \<open>
  JavaScript numbers are IEEE doubles: 53 significant bits, results rounded to the nearest
  double, ties to the even one. The numbers of the decoder are integers. \<open>dbl x\<close> is the
  double nearest to the integer \<open>x\<close> (itself when \<open>\<bar>x\<bar> \<le> 2^53\<close>): the leading 53 bits of \<open>\<bar>x\<bar>\<close>,
  rounded on the bits dropped. A sum, difference or product of two integer doubles is the
  double nearest to the exact result, so \<open>js_add\<close>, \<open>js_sub\<close> and \<open>js_mul\<close> are the operators
  \<open>+\<close>, \<open>-\<close> and \<open>*\<close> on integer doubles, with \<open>NaN\<close> when an operand is \<open>undefined\<close> or \<open>NaN\<close>.
  Not modelled: the overflow to \<open>Infinity\<close> from \<open>2^1024\<close> on, and the sign of a zero.
\<close>

function bitlength :: "int \<Rightarrow> nat" where
  "bitlength n = (if n \<le> 0 then 0 else Suc (bitlength (n div 2)))"
  by pat_completeness auto
termination
  by (relation "measure nat") auto

declare bitlength.simps [simp del]

definition dbl :: "int \<Rightarrow> int" where
  "dbl x =
     (let n = \<bar>x\<bar>; l = bitlength n
      in if l \<le> 53 then x
         else let sh = l - 53;
                  q = n div 2 ^ sh;
                  r = n mod 2 ^ sh;
                  h = 2 ^ (sh - 1);
                  q' = (if r < h then q else if h < r then q + 1 else if even q then q else q + 1)
              in sgn x * (q' * 2 ^ sh))"

definition js_mul :: "jsnum \<Rightarrow> jsnum \<Rightarrow> jsnum" where
  "js_mul a b = (case (a, b) of (Some x, Some y) \<Rightarrow> Some (dbl (x * y)) | _ \<Rightarrow> None)"

definition js_add :: "jsnum \<Rightarrow> jsnum \<Rightarrow> jsnum" where
  "js_add a b = (case (a, b) of (Some x, Some y) \<Rightarrow> Some (dbl (x + y)) | _ \<Rightarrow> None)"

definition js_sub :: "jsnum \<Rightarrow> jsnum \<Rightarrow> jsnum" where
  "js_sub a b = (case (a, b) of (Some x, Some y) \<Rightarrow> Some (dbl (x - y)) | _ \<Rightarrow> None)"

text \<open>
  \<open>exact x\<close>: the integer \<open>x\<close> is within \<open>2^53\<close>, where every integer is a double;
  \<open>exact_mul\<close>, \<open>exact_add\<close>: the operands and the exact result are.
\<close>

definition exact :: "int \<Rightarrow> bool" where
  "exact x = (\<bar>x\<bar> \<le> 2 ^ 53)"

definition exact_mul :: "jsnum \<Rightarrow> jsnum \<Rightarrow> bool" where
  "exact_mul a b =
     (case (a, b) of (Some x, Some y) \<Rightarrow> exact x \<and> exact y \<and> exact (x * y) | _ \<Rightarrow> True)"


definition ZIGZAG :: "nat list" where
  "ZIGZAG =
    [0, 1, 5, 6, 14, 15, 27, 28,
     2, 4, 7, 13, 16, 26, 29, 42,
     3, 8, 12, 17, 25, 30, 41, 43,
     9, 11, 18, 24, 31, 40, 44, 53,
     10, 19, 23, 32, 39, 45, 52, 54,
     20, 22, 33, 38, 46, 51, 55, 60,
     21, 34, 37, 47, 50, 56, 59, 61,
     35, 36, 48, 49, 57, 58, 62, 63]"

text \<open>
  Arrays are passed by reference. The heap is the list of all arrays allocated so far and a
  reference is an index into it; \<open>new Array(n)\<close> appends an array of \<open>n\<close> holes.
\<close>

type_synonym heap = "jsnum list list"

text \<open>
  \<^verbatim>\<open>function dequantize(zigzagCoeff, quantTable) {
     for (let i = 0; i < zigzagCoeff.length; i++) zigzagCoeff[i] = zigzagCoeff[i] * quantTable[i]; }\<close>
  on the heap, so that the two arguments may be the same array.
\<close>

function dequantize_from :: "nat \<Rightarrow> heap \<Rightarrow> nat \<Rightarrow> nat \<Rightarrow> heap" where
  "dequantize_from i h zz qt =
     (if i < length (h ! zz)
      then dequantize_from (Suc i)
             (h[zz := (h ! zz)[i := js_mul (h ! zz ! i) (arr_get (h ! qt) i)]]) zz qt
      else h)"
  by pat_completeness auto
termination
proof (relation "measure (\<lambda>(i, h, zz, qt). length (h ! zz) - i)", goal_cases)
  case 1
  show ?case by simp
next
  case (2 i h zz qt)
  have "length (h[zz := (h ! zz)[i := js_mul (h ! zz ! i) (arr_get (h ! qt) i)]] ! zz) = length (h ! zz)"
    by (cases "zz < length h") (simp_all add: list_update_beyond)
  with 2 show ?case by simp
qed

declare dequantize_from.simps [simp del]

definition dequantize :: "heap \<Rightarrow> nat \<Rightarrow> nat \<Rightarrow> heap" where
  "dequantize h zz qt = dequantize_from 0 h zz qt"

text \<open>The same loop on the contents of a coefficient array that is not the table itself.\<close>

function dequantized_from :: "nat \<Rightarrow> jsnum list \<Rightarrow> jsnum list \<Rightarrow> jsnum list" where
  "dequantized_from i zz qt =
     (if i < length zz
      then dequantized_from (Suc i) (zz[i := js_mul (zz ! i) (arr_get qt i)]) qt
      else zz)"
  by pat_completeness auto
termination
  by (relation "measure (\<lambda>(i, zz, qt). length zz - i)") auto

declare dequantized_from.simps [simp del]

definition dequantized :: "jsnum list \<Rightarrow> jsnum list \<Rightarrow> jsnum list" where
  "dequantized zz qt = dequantized_from 0 zz qt"

text \<open>
  \<^verbatim>\<open>function reorder(coeff) { let reordered = new Array(coeff.length);
     for (let i = 0; i < coeff.length; i++) reordered[i] = coeff[ZIGZAG[i]]; return reordered; }\<close>
  \<open>ZIGZAG[i]\<close> is \<open>undefined\<close> from index 64 on, and so is \<open>coeff[undefined]\<close>.
\<close>

definition reorder_elem :: "jsnum list \<Rightarrow> nat \<Rightarrow> jsnum" where
  "reorder_elem coeff i = (if i < length ZIGZAG then arr_get coeff (ZIGZAG ! i) else None)"

function reordered_from :: "nat \<Rightarrow> jsnum list \<Rightarrow> jsnum list \<Rightarrow> jsnum list" where
  "reordered_from i coeff r =
     (if i < length coeff
      then reordered_from (Suc i) coeff (arr_set r i (reorder_elem coeff i))
      else r)"
  by pat_completeness auto
termination
  by (relation "measure (\<lambda>(i, coeff, r). length coeff - i)") auto

declare reordered_from.simps [simp del]

definition reordered :: "jsnum list \<Rightarrow> jsnum list" where
  "reordered coeff = reordered_from 0 coeff (replicate (length coeff) None)"

definition reorder :: "heap \<Rightarrow> nat \<Rightarrow> heap \<times> nat" where
  "reorder h coeff = (h @ [reordered (h ! coeff)], length h)"

text \<open>\<^verbatim>\<open>function levelShift(block) { for (i...) block[i] += 128; }\<close>, on the contents.\<close>

definition levelShift :: "jsnum list \<Rightarrow> jsnum list" where
  "levelShift block = map (\<lambda>x. js_add x (Some 128)) block"

text \<open>The quantization table, the coefficients and the expected products of \<open>testDequantize\<close> (test.js).\<close>

definition test_quantTable :: "jsnum list" where
  "test_quantTable = map Some
    [16, 11, 10, 16, 24, 40, 51, 61,
     12, 12, 14, 19, 26, 58, 60, 55,
     14, 13, 16, 24, 40, 57, 69, 56,
     14, 17, 22, 29, 51, 87, 80, 62,
     18, 22, 37, 56, 68, 109, 103, 77,
     24, 35, 55, 64, 81, 104, 113, 92,
     49, 64, 78, 87, 103, 121, 120, 101,
     72, 92, 95, 98, 112, 100, 103, 99]"

definition test_coeffs :: "jsnum list" where
  "test_coeffs = map Some
    [-26, -3, -6, 2, 2, -1, 0, 0,
     0, -2, -4, 1, 1, 0, 0, 0,
     -3, 1, 5, -1, -1, 0, 0, 0,
     -3, 1, 2, -1, 0, 0, 0, 0,
     1, 0, 0, 0, 0, 0, 0, 0,
     0, 0, 0, 0, 0, 0, 0, 0,
     0, 0, 0, 0, 0, 0, 0, 0,
     0, 0, 0, 0, 0, 0, 0, 0]"

definition test_dequantized :: "jsnum list" where
  "test_dequantized = map Some
    [-416, -33, -60, 32, 48, -40, 0, 0,
     0, -24, -56, 19, 26, 0, 0, 0,
     -42, 13, 80, -24, -40, 0, 0, 0,
     -42, 17, 44, -29, 0, 0, 0, 0,
     18, 0, 0, 0, 0, 0, 0, 0,
     0, 0, 0, 0, 0, 0, 0, 0,
     0, 0, 0, 0, 0, 0, 0, 0,
     0, 0, 0, 0, 0, 0, 0, 0]"

section \<open>Huffman decoders\<close>

text \<open>
  Both decoders take their bits from a bit source through its \<open>nextBit\<close>, here the
  parameter \<open>nb\<close>: a call either raises or returns a bit and the new state of the source.
  The decoders store and return the values of a table without looking at them (they only
  test \<open>!= undefined\<close>), so the type \<open>'v\<close> of the values is left open; a decoded value is
  \<open>Some v\<close>, or \<open>None\<close> for \<open>undefined\<close>.
\<close>

definition NUM_HUFFMAN_LENGTHS :: nat where
  "NUM_HUFFMAN_LENGTHS = 16"

subsection \<open>HuffTree: the binary tree decoder\<close>

text \<open>
  A node has a \<open>level\<close>, possibly \<open>data\<close>, and either no children or both: \<open>left\<close> and
  \<open>right\<close> are only ever assigned together (``nodes always created in pairs'').
\<close>

datatype 'v hufftree =
    NoKids nat "'v option"
  | Kids nat "'v option" "'v hufftree" "'v hufftree"

fun level :: "'v hufftree \<Rightarrow> nat" where
  "level (NoKids l d) = l"
| "level (Kids l d lt rt) = l"

fun data :: "'v hufftree \<Rightarrow> 'v option" where
  "data (NoKids l d) = d"
| "data (Kids l d lt rt) = d"

fun nodes :: "'v hufftree \<Rightarrow> nat" where
  "nodes (NoKids l d) = 0"
| "nodes (Kids l d lt rt) = Suc (nodes lt + nodes rt)"

definition newHuffTree :: "nat \<Rightarrow> 'v hufftree" where
  "newHuffTree l = NoKids l None"

text \<open>
  \<open>insertCode(codeLength, value)\<close> returns whether the value was placed, and the node as it
  is afterwards. On a node without data and without children whose level is already
  beyond \<open>codeLength\<close> the source creates children and recurses into the left one without
  end; that call is \<open>Inl Diverges\<close>.
\<close>

function insertCode :: "nat \<Rightarrow> 'v \<Rightarrow> 'v hufftree \<Rightarrow> error + bool \<times> 'v hufftree" where
  "insertCode codeLength v (NoKids l d) =
     (if d \<noteq> None then Inr (False, NoKids l d)
      else if codeLength = l then Inr (True, NoKids l (Some v))
      else if codeLength < l then Inl Diverges
      else bindE (insertCode codeLength v (newHuffTree (l + 1))) (\<lambda>(ok, lt).
             Inr (ok, Kids l d lt (newHuffTree (l + 1)))))"
| "insertCode codeLength v (Kids l d lt rt) =
     (if d \<noteq> None then Inr (False, Kids l d lt rt)
      else if codeLength = l then Inr (True, Kids l (Some v) lt rt)
      else bindE (insertCode codeLength v lt) (\<lambda>(ok, lt').
             if ok then Inr (True, Kids l d lt' rt)
             else bindE (insertCode codeLength v rt) (\<lambda>(ok', rt').
                    Inr (ok', Kids l d lt' rt'))))"
  by pat_completeness auto
termination
  by (relation "inv_image (less_than <*lex*> less_than)
                  (\<lambda>(c, v, t). (nodes t, c - level t))")
     (auto simp: newHuffTree_def)

declare insertCode.simps [simp del]

fun descendNode :: "'v hufftree \<Rightarrow> int \<Rightarrow> 'v hufftree option" where
  "descendNode (NoKids l d) b = None"
| "descendNode (Kids l d lt rt) b =
     (if b = 0 then Some lt else if b = 1 then Some rt else None)"

lemma descendNode_nodes: "descendNode t b = Some n \<Longrightarrow> nodes n < nodes t"
  by (cases t) (auto split: if_splits)

function tree_decodeHuffman ::
    "('s \<Rightarrow> error + int \<times> 's) \<Rightarrow> 'v hufftree \<Rightarrow> 's \<Rightarrow> error + 'v option \<times> 's" where
  "tree_decodeHuffman nb node s =
     (case nb s of
        Inl e \<Rightarrow> Inl e
      | Inr (b, s') \<Rightarrow>
          (case descendNode node b of
             None \<Rightarrow> Inr (None, s')
           | Some n \<Rightarrow> if data n \<noteq> None then Inr (data n, s') else tree_decodeHuffman nb n s'))"
  by pat_completeness auto
termination
  by (relation "measure (\<lambda>(nb, t, s). nodes t)") (auto dest: descendNode_nodes)

declare tree_decodeHuffman.simps [simp del]

subsection \<open>HuffArray: the decoder of Annex C and F.2.2.3\<close>

text \<open>
  \<open>bits i\<close> is \<open>BITS[i]\<close>, the number of codes of length \<open>i\<close>; only \<open>i = 1..16\<close> is read.
  \<open>huffval\<close>, \<open>huffsize\<close> and \<open>huffcode\<close> start empty in the constructor, so in
  \<open>initDecoder\<close> every \<open>huffsize[k++] = i\<close> and \<open>huffcode[k++] = code++\<close> appends.
\<close>

record 'v huffarray =
  bits :: "nat \<Rightarrow> nat"
  huffval :: "'v option list"
  huffsize :: "jsnum list"
  huffcode :: "jsnum list"

text \<open>Figure C.1: the code lengths in order, closed by a 0.\<close>

definition generate_huffsize :: "(nat \<Rightarrow> nat) \<Rightarrow> jsnum list" where
  "generate_huffsize bs =
     concat (map (\<lambda>i. replicate (bs i) (Some (int i))) [1..<Suc NUM_HUFFMAN_LENGTHS]) @ [Some 0]"

text \<open>
  Figure C.2. The inner loop assigns consecutive codes while the size stays \<open>si\<close>; the outer
  loop doubles the code and moves to the next size. The outer loop never ends when
  \<open>huffsize[k]\<close> is \<open>undefined\<close> or below \<open>si\<close>: \<open>Inl Diverges\<close>.
\<close>

function code_inner :: "jsnum list \<Rightarrow> int \<Rightarrow> nat \<times> int \<times> jsnum list \<Rightarrow> nat \<times> int \<times> jsnum list" where
  "code_inner hs si (k, code, hc) =
     (if arr_get hs k = Some si
      then code_inner hs si (Suc k, code + 1, arr_set hc k (Some code))
      else (k, code, hc))"
  by pat_completeness auto
termination
  by (relation "measure (\<lambda>(hs, si, k, code, hc). length hs - k)")
     (auto simp: arr_get_def split: if_splits)

declare code_inner.simps [simp del]

lemma code_inner_k:
  "code_inner hs si (k, code, hc) = (k', code', hc') \<Longrightarrow>
   k \<le> k' \<and> (arr_get hs k = Some si \<longrightarrow> k < k')"
proof (induction hs si "(k, code, hc)" arbitrary: k code hc rule: code_inner.induct)
  case (1 hs si k code hc)
  show ?case
  proof (cases "arr_get hs k = Some si")
    case True
    then have "code_inner hs si (Suc k, code + 1, arr_set hc k (Some code)) = (k', code', hc')"
      using "1.prems" by (subst (asm) code_inner.simps) simp
    then have "Suc k \<le> k'"
      using "1.hyps" [OF True] by blast
    then show ?thesis by simp
  next
    case False
    then show ?thesis
      using "1.prems" by (subst (asm) code_inner.simps) simp
  qed
qed

function code_outer :: "jsnum list \<Rightarrow> nat \<times> int \<times> int \<times> jsnum list \<Rightarrow> error + jsnum list" where
  "code_outer hs (k, code, si, hc) =
     (case arr_get hs k of
        None \<Rightarrow> Inl Diverges
      | Some z \<Rightarrow>
          if z = 0 then Inr hc
          else if z < si then Inl Diverges
          else (case code_inner hs si (k, code, hc) of
                  (k', code', hc') \<Rightarrow> code_outer hs (k', js_shl code' 1, si + 1, hc')))"
  by pat_completeness auto
termination
proof (relation "inv_image (less_than <*lex*> less_than)
         (\<lambda>(hs, k, code, si, hc). (length hs - k, nat (the (arr_get hs k) - si)))", goal_cases)
  case 1
  show ?case by auto
next
  case (2 hs k code si hc z k' y code' hc')
  then have inner: "code_inner hs si (k, code, hc) = (k', code', hc')" by simp
  from 2 have z: "arr_get hs k = Some z" "z \<noteq> 0" "\<not> z < si" by simp_all
  then have kl: "k < length hs" by (auto simp: arr_get_def split: if_splits)
  show ?case
  proof (cases "z = si")
    case True
    then have "k < k'" using code_inner_k [OF inner] z by simp
    then have "length hs - k' < length hs - k" using kl by simp
    then show ?thesis by simp
  next
    case False
    then have "arr_get hs k \<noteq> Some si" using z by simp
    then have "k' = k"
      using inner by (subst (asm) code_inner.simps) simp
    then show ?thesis using z False by simp
  qed
qed

declare code_outer.simps [simp del]

definition generate_huffcode :: "jsnum list \<Rightarrow> error + jsnum list" where
  "generate_huffcode hs =
     (case arr_get hs 0 of
        None \<Rightarrow> Inl Diverges
      | Some si \<Rightarrow> code_outer hs (0, 0, si, []))"

definition initDecoder :: "(nat \<Rightarrow> nat) \<Rightarrow> error + 'v huffarray" where
  "initDecoder bs =
     (let hs = generate_huffsize bs
      in bindE (generate_huffcode hs) (\<lambda>hc.
           Inr \<lparr>bits = bs, huffval = [], huffsize = hs, huffcode = hc\<rparr>))"

definition array_insertCode :: "nat \<Rightarrow> 'v \<Rightarrow> 'v huffarray \<Rightarrow> bool \<times> 'v huffarray" where
  "array_insertCode codeLength v a = (True, a\<lparr>huffval := huffval a @ [Some v]\<rparr>)"

text \<open>
  The tables of \<open>decodeHuffman\<close>, rebuilt at every call: the state of the loop is
  \<open>(j, mincode, maxcode, valptr)\<close>.
\<close>

definition decoder_tables_step ::
    "'v huffarray \<Rightarrow> nat \<Rightarrow> nat \<times> jsnum list \<times> jsnum list \<times> jsnum list
       \<Rightarrow> nat \<times> jsnum list \<times> jsnum list \<times> jsnum list" where
  "decoder_tables_step a i st =
     (case st of (j, mincode, maxcode, valptr) \<Rightarrow>
        if bits a i = 0 then (j, mincode, arr_set maxcode i (Some (-1)), valptr)
        else let valptr' = arr_set valptr i (Some (int j));
                 mincode' = arr_set mincode i (arr_get (huffcode a) j);
                 j' = j + bits a i - 1;
                 maxcode' = arr_set maxcode i (arr_get (huffcode a) j')
             in (j' + 1, mincode', maxcode', valptr'))"

definition decoder_tables :: "'v huffarray \<Rightarrow> nat \<times> jsnum list \<times> jsnum list \<times> jsnum list" where
  "decoder_tables a = fold (decoder_tables_step a) [1..<Suc NUM_HUFFMAN_LENGTHS] (0, [], [], [])"

text \<open>
  \<^verbatim>\<open>while (code > maxcode[i]) { i++; tmp = reader.nextBit(img); code = (code << 1) + tmp; }\<close>
  A comparison with \<open>undefined\<close> is false, which ends the loop at \<open>i = 17\<close> at the latest.
\<close>

function array_loop ::
    "('s \<Rightarrow> error + int \<times> 's) \<Rightarrow> jsnum list \<Rightarrow> nat \<Rightarrow> int \<Rightarrow> 's \<Rightarrow> error + nat \<times> int \<times> 's" where
  "array_loop nb maxcode i code s =
     (case arr_get maxcode i of
        None \<Rightarrow> Inr (i, code, s)
      | Some m \<Rightarrow>
          if code > m
          then (case nb s of
                  Inl e \<Rightarrow> Inl e
                | Inr (tmp, s') \<Rightarrow> array_loop nb maxcode (Suc i) (js_shl code 1 + tmp) s')
          else Inr (i, code, s))"
  by pat_completeness auto
termination
  by (relation "measure (\<lambda>(nb, maxcode, i, code, s). length maxcode - i)")
     (auto simp: arr_get_def split: if_splits)

declare array_loop.simps [simp del]

definition array_decodeHuffman ::
    "('s \<Rightarrow> error + int \<times> 's) \<Rightarrow> 'v huffarray \<Rightarrow> 's \<Rightarrow> error + 'v option \<times> 's" where
  "array_decodeHuffman nb a s =
     (case decoder_tables a of (jj, mincode, maxcode, valptr) \<Rightarrow>
        bindE (nb s) (\<lambda>(code0, s0).
        bindE (array_loop nb maxcode 1 code0 s0) (\<lambda>(i, code, s1).
          Inr (case (arr_get valptr i, arr_get mincode i) of
                 (Some p, Some m) \<Rightarrow>
                   (let j = p + (code - m) in if 0 \<le> j then arr_get (huffval a) (nat j) else None)
               | _ \<Rightarrow> None,
               s1))))"

subsection \<open>Either decoder, and filling it from a table specification\<close>

datatype 'v decoder = Tree "'v hufftree" | Array "'v huffarray"

definition decodeHuffman ::
    "('s \<Rightarrow> error + int \<times> 's) \<Rightarrow> 'v decoder \<Rightarrow> 's \<Rightarrow> error + 'v option \<times> 's" where
  "decodeHuffman nb dec s =
     (case dec of Tree t \<Rightarrow> tree_decodeHuffman nb t s | Array a \<Rightarrow> array_decodeHuffman nb a s)"

text \<open>
  \<open>parseHuffmanTable\<close> calls \<open>initDecoder(bits)\<close> and then, for \<open>i = 1..16\<close> and each of the
  \<open>bits[i]\<close> values of that length in the order of the segment, \<open>insertCode(i, value)\<close>,
  ignoring the result.
\<close>

definition code_lengths :: "(nat \<Rightarrow> nat) \<Rightarrow> nat list" where
  "code_lengths bs = concat (map (\<lambda>i. replicate (bs i) i) [1..<Suc NUM_HUFFMAN_LENGTHS])"

fun tree_insert_all :: "(nat \<times> 'v) list \<Rightarrow> 'v hufftree \<Rightarrow> error + 'v hufftree" where
  "tree_insert_all [] t = Inr t"
| "tree_insert_all ((l, v) # xs) t =
     bindE (insertCode l v t) (\<lambda>(ok, t'). tree_insert_all xs t')"

definition tree_table :: "(nat \<Rightarrow> nat) \<Rightarrow> 'v list \<Rightarrow> error + 'v hufftree" where
  "tree_table bs vals = tree_insert_all (zip (code_lengths bs) vals) (newHuffTree 0)"

definition array_table :: "(nat \<Rightarrow> nat) \<Rightarrow> 'v list \<Rightarrow> error + 'v huffarray" where
  "array_table bs vals =
     bindE (initDecoder bs) (\<lambda>a.
       Inr (fold (\<lambda>(l, v) a. snd (array_insertCode l v a)) (zip (code_lengths bs) vals) a))"

text \<open>
  The codeword of the \<open>k\<close>-th value of a table: the \<open>huffsize[k]\<close> low bits of
  \<open>huffcode[k]\<close>, most significant first (Annex C).
\<close>

fun code_bits :: "nat \<Rightarrow> int \<Rightarrow> int list" where
  "code_bits 0 c = []"
| "code_bits (Suc n) c = (c div 2 ^ n) mod 2 # code_bits n c"

definition codeword :: "(nat \<Rightarrow> nat) \<Rightarrow> nat \<Rightarrow> int list" where
  "codeword bs k =
     (case (initDecoder bs :: error + unit huffarray) of
        Inl e \<Rightarrow> []
      | Inr a \<Rightarrow>
          (case (arr_get (huffsize a) k, arr_get (huffcode a) k) of
             (Some n, Some c) \<Rightarrow> code_bits (nat n) c
           | _ \<Rightarrow> []))"

text \<open>
  A valid table specification: as many values as the histogram counts, and code lengths
  that fit a prefix code (Kraft's inequality, scaled by \<open>2^16\<close>).
\<close>

definition valid_table :: "(nat \<Rightarrow> nat) \<Rightarrow> 'v list \<Rightarrow> bool" where
  "valid_table bs vals =
     (length vals = (\<Sum>i\<leftarrow>[1..<Suc NUM_HUFFMAN_LENGTHS]. bs i)
      \<and> (\<Sum>i\<leftarrow>[1..<Suc NUM_HUFFMAN_LENGTHS]. bs i * 2 ^ (NUM_HUFFMAN_LENGTHS - i))
            \<le> 2 ^ NUM_HUFFMAN_LENGTHS)"

text \<open>Decoding \<open>n\<close> symbols one after the other.\<close>

fun decode_seq ::
    "('s \<Rightarrow> error + 'v option \<times> 's) \<Rightarrow> nat \<Rightarrow> 's \<Rightarrow> error + 'v option list \<times> 's" where
  "decode_seq dec 0 s = Inr ([], s)"
| "decode_seq dec (Suc n) s =
     (case dec s of
        Inl e \<Rightarrow> Inl e
      | Inr (v, s') \<Rightarrow>
          (case decode_seq dec n s' of Inl e \<Rightarrow> Inl e | Inr (vs, s'') \<Rightarrow> Inr (v # vs, s'')))"

text \<open>A bit source that is a plain list of bits; reading past its end raises.\<close>

fun list_nextBit :: "int list \<Rightarrow> error + int \<times> int list" where
  "list_nextBit [] = Inl RangeError"
| "list_nextBit (b # bs) = Inr (b, bs)"

subsection \<open>Canonical codes in closed form, and the shape of a tree filled in canonical order\<close>

text \<open>
  \<open>count_below bs i\<close> is the number of codes shorter than \<open>i\<close>, \<open>first_code bs i\<close> the
  canonical code of the first value of length \<open>i\<close>, and \<open>canonical_codes\<close> the list that
  Figure C.2 produces. \<open>weight_below\<close> is the Kraft sum of the lengths below \<open>i\<close>, scaled by
  \<open>2^16\<close>.
\<close>

definition count_below :: "(nat \<Rightarrow> nat) \<Rightarrow> nat \<Rightarrow> nat" where
  "count_below bs i = (\<Sum>j\<leftarrow>[1..<i]. bs j)"

fun first_code :: "(nat \<Rightarrow> nat) \<Rightarrow> nat \<Rightarrow> nat" where
  "first_code bs 0 = 0"
| "first_code bs (Suc 0) = 0"
| "first_code bs (Suc (Suc i)) = (first_code bs (Suc i) + bs (Suc i)) * 2"

definition canonical_codes :: "(nat \<Rightarrow> nat) \<Rightarrow> nat \<Rightarrow> jsnum list" where
  "canonical_codes bs n =
     concat (map (\<lambda>i. map (\<lambda>m. Some (int (first_code bs i + m))) [0..<bs i]) [1..<n])"

definition weight_below :: "(nat \<Rightarrow> nat) \<Rightarrow> nat \<Rightarrow> nat" where
  "weight_below bs i = (\<Sum>j\<leftarrow>[1..<i]. bs j * 2 ^ (NUM_HUFFMAN_LENGTHS - j))"

text \<open>
  \<open>lookup t p\<close> is the data of the node reached from \<open>t\<close> along the bits \<open>p\<close> (0 left, 1 right),
  provided no node before it on the path holds data.
\<close>

fun lookup :: "'v hufftree \<Rightarrow> int list \<Rightarrow> 'v option" where
  "lookup t [] = data t"
| "lookup (NoKids l d) (b # p) = None"
| "lookup (Kids l d lt rt) (b # p) =
     (if d \<noteq> None then None
      else if b = 0 then lookup lt p else if b = 1 then lookup rt p else None)"

text \<open>
  \<open>used L t\<close> counts the positions of depth \<open>L\<close> below \<open>t\<close> that are taken by a value at or
  above them. A tree is \<open>packed\<close> for depth \<open>L\<close> when its inner nodes lie above depth \<open>L\<close>,
  hold no data, carry consistent levels, and the right subtree is only used once the left one is full.
\<close>

fun used :: "nat \<Rightarrow> 'v hufftree \<Rightarrow> nat" where
  "used L (NoKids l d) = (if d = None then 0 else 2 ^ (L - l))"
| "used L (Kids l d lt rt) = used L lt + used L rt"

fun packed :: "nat \<Rightarrow> 'v hufftree \<Rightarrow> bool" where
  "packed L (NoKids l d) = (l \<le> L)"
| "packed L (Kids l d lt rt) =
     (d = None \<and> l < L \<and> level lt = Suc l \<and> level rt = Suc l \<and> packed L lt \<and> packed L rt
      \<and> (0 < used L rt \<longrightarrow> used L lt = 2 ^ (L - Suc l)))"

text \<open>
  The tree after the first \<open>k\<close> values of a table have been inserted: the root is at level 0
  and holds no data; whenever \<open>k\<close> values make up all codes shorter than \<open>i\<close> and \<open>m\<close> codes
  of length \<open>i\<close>, the tree is packed for depth \<open>i\<close> with \<open>first_code bs i + m\<close> positions
  used; and each of the \<open>k\<close> values is found along its codeword.
\<close>

definition filled :: "(nat \<Rightarrow> nat) \<Rightarrow> 'v list \<Rightarrow> nat \<Rightarrow> 'v hufftree \<Rightarrow> bool" where
  "filled bs vals k t =
     (level t = 0 \<and> data t = None
      \<and> (\<forall>i m. 1 \<le> i \<and> i \<le> NUM_HUFFMAN_LENGTHS \<and> m \<le> bs i \<and> k = count_below bs i + m
            \<longrightarrow> packed i t \<and> used i t = first_code bs i + m)
      \<and> (\<forall>j. j < k \<longrightarrow> lookup t (codeword bs j) = Some (vals ! j)))"

subsection \<open>The table of the decoder test (test.js, testHuffmanDecoder)\<close>

definition test_bits :: "nat \<Rightarrow> nat" where
  "test_bits = (\<lambda>i. [0, 0, 0, 7, 1, 1, 1, 1, 1, 0, 0, 0, 0, 0, 0, 0, 0] ! i)"

definition test_values :: "int list" where
  "test_values = [4, 5, 3, 2, 6, 1, 0, 7, 8, 9, 10, 11]"

text \<open>The bits of the test's seven bytes: the twelve codewords and five padding bits.\<close>

definition test_stream :: "int list" where
  "test_stream =
     [0, 0, 0, 0, 0, 1, 0, 1,   0, 0, 1, 1, 1, 0, 0, 1,   0, 1, 1, 1, 0, 1, 1, 1,
      0, 1, 1, 1, 1, 0, 1, 1,   1, 1, 1, 0, 1, 1, 1, 1,   1, 1, 0, 1, 1, 1, 1, 1,
      1, 1, 0, 1, 1, 1, 1, 1]"

section \<open>EXTEND (jsjpeg.js, Figure F.12)\<close>

text \<open>
  \<^verbatim>\<open>function extend(v, t) { if (t === 0) return 0; let vt = 2 ** (t - 1);
     if (v < vt) { vt = (-1 << t) + 1; v += vt } return v; }\<close>
  \<open>t\<close> is a magnitude category read from a Huffman table (a byte), \<open>v\<close> the raw bits.
\<close>

definition extend :: "int \<Rightarrow> nat \<Rightarrow> int" where
  "extend v t =
     (if t = 0 then 0
      else let vt = 2 ^ (t - 1)
           in if v < vt then v + (js_shl (-1) t + 1) else v)"

section \<open>Coefficient decoding (jsjpeg.js, F.2.2)\<close>

text \<open>
  RECEIVE (F.2.2.4): \<^verbatim>\<open>for (i = 0; i < ssss; i++) v = (v << 1) + reader.nextBit(img)\<close>,
  starting from \<open>v = 0\<close>.
\<close>

fun receive_from :: "('s \<Rightarrow> error + int \<times> 's) \<Rightarrow> nat \<Rightarrow> int \<Rightarrow> 's \<Rightarrow> error + int \<times> 's" where
  "receive_from nb 0 v s = Inr (v, s)"
| "receive_from nb (Suc n) v s = bindE (nb s) (\<lambda>(b, s'). receive_from nb n (js_shl v 1 + b) s')"

definition receive :: "('s \<Rightarrow> error + int \<times> 's) \<Rightarrow> nat \<Rightarrow> 's \<Rightarrow> error + int \<times> 's" where
  "receive nb ssss s = receive_from nb ssss 0 s"

text \<open>
  The values of a Huffman table are the bytes that \<open>parseHuffmanTable\<close> reads from the DHT
  segment with \<open>nextByte\<close>, so a decoded symbol is a byte or \<open>undefined\<close>. \<open>symbol\<close> is the
  number that \<open>>>\<close> and \<open>&\<close> make of it: \<open>undefined\<close> converts to 0.
\<close>

definition symbol :: "8 word option \<Rightarrow> int" where
  "symbol rs = (case rs of None \<Rightarrow> 0 | Some w \<Rightarrow> uint w)"

definition getHighNibble :: "int \<Rightarrow> int" where
  "getHighNibble b = js_sar b 4"

definition getLowNibble :: "int \<Rightarrow> int" where
  "getLowNibble b = js_and b 0x0F"

text \<open>
  \<open>decodeACCoeffs\<close>: \<^verbatim>\<open>for (let k = 1; k < 64; k++)\<close>. \<open>decodeACCoeffs_from\<close> is the loop from
  its test \<open>k < 64\<close> on; the \<open>+ 1\<close> of every recursive call is the loop's own \<open>k++\<close>.
  The branch for \<open>SSSS = 0\<close> with \<open>RRRR\<close> neither 0 nor 15 only logs an error.
  An assignment \<open>zigzagCoeff[k] = sign\<close> with \<open>k\<close> beyond the length extends the array.
\<close>

function decodeACCoeffs_from ::
    "('s \<Rightarrow> error + int \<times> 's) \<Rightarrow> 8 word decoder \<Rightarrow> nat \<Rightarrow> 's \<times> jsnum list
       \<Rightarrow> error + 's \<times> jsnum list" where
  "decodeACCoeffs_from nb acTable k (s, zigzagCoeff) =
     (if k < 64
      then bindE (decodeHuffman nb acTable s) (\<lambda>(rs, s1).
             let ssss = getLowNibble (symbol rs);
                 rrrr = getHighNibble (symbol rs)
             in if ssss = 0
                then (if rrrr = 0xF then decodeACCoeffs_from nb acTable (k + 15 + 1) (s1, zigzagCoeff)
                      else if rrrr = 0 then Inr (s1, zigzagCoeff)
                      else decodeACCoeffs_from nb acTable (k + 1) (s1, zigzagCoeff))
                else (let k' = k + nat rrrr
                      in bindE (receive nb (nat ssss) s1) (\<lambda>(amp, s2).
                           let sign = extend amp (nat ssss)
                           in decodeACCoeffs_from nb acTable (k' + 1)
                                (s2, arr_set zigzagCoeff k' (Some sign)))))
      else Inr (s, zigzagCoeff))"
  by pat_completeness auto
termination
  by (relation "measure (\<lambda>(nb, acTable, k, s, zz). 64 - k)") auto

declare decodeACCoeffs_from.simps [simp del]

definition decodeACCoeffs ::
    "('s \<Rightarrow> error + int \<times> 's) \<Rightarrow> 8 word decoder \<Rightarrow> 's \<times> jsnum list \<Rightarrow> error + 's \<times> jsnum list" where
  "decodeACCoeffs nb acTable st = decodeACCoeffs_from nb acTable 1 st"

text \<open>
  \<open>decodeDCCoeff\<close>. \<open>decodeDiff\<close> is its first three statements: the category \<open>t\<close>, then
  \<open>t\<close> raw bits, then EXTEND. With \<open>t\<close> \<open>undefined\<close> the loop of RECEIVE does not run and
  EXTEND returns its \<open>v = 0\<close> (both of its comparisons are false). Only after the bits have
  been read is \<open>scan.dcpred[id]\<close> looked up (\<open>cid\<close> is the component id) and the difference
  added; the sum is \<open>NaN\<close> when the predictor is \<open>undefined\<close>.
\<close>

definition decodeDiff :: "8 word decoder \<Rightarrow> reader \<times> img \<Rightarrow> error + int \<times> (reader \<times> img)" where
  "decodeDiff dcTable st =
     bindE (decodeHuffman nextBit dcTable st) (\<lambda>(t, s1).
       case t of
         None \<Rightarrow> Inr (0, s1)
       | Some w \<Rightarrow> bindE (receive nextBit (unat w) s1) (\<lambda>(diff, s2). Inr (extend diff (unat w), s2)))"

definition decodeDCCoeff ::
    "8 word decoder \<Rightarrow> nat \<Rightarrow> reader \<times> img \<Rightarrow> error + jsnum \<times> (reader \<times> img)" where
  "decodeDCCoeff dcTable cid st =
     bindE (decodeDiff dcTable st) (\<lambda>(diff, s2).
       Inr (js_add (arr_get (dcpred (snd s2)) cid) (Some diff), s2))"

text \<open>
  The coefficient part of \<open>decodeDataUnit\<close>:
  \<^verbatim>\<open>const zigzagCoeff = new Array(64).fill(0);
  zigzagCoeff[0] = decodeDCCoeff(reader, img, scan, id, dcTable);
  scan.dcpred[id] = zigzagCoeff[0];
  decodeACCoeffs(reader, img, zigzagCoeff, acTable);\<close>
  (\<open>scan\<close> is \<open>img.scan\<close>, the object whose \<open>dcpred\<close> the bit reader resets.)
\<close>

definition decodeCoeffs ::
    "8 word decoder \<Rightarrow> 8 word decoder \<Rightarrow> nat \<Rightarrow> reader \<times> img
       \<Rightarrow> error + jsnum list \<times> (reader \<times> img)" where
  "decodeCoeffs dcTable acTable cid st =
     bindE (decodeDCCoeff dcTable cid st) (\<lambda>(dc, (r1, im1)).
     let zigzagCoeff = (replicate 64 (Some 0))[0 := dc];
         im2 = im1\<lparr>dcpred := arr_set (dcpred im1) cid dc\<rparr>
     in bindE (decodeACCoeffs nextBit acTable ((r1, im2), zigzagCoeff)) (\<lambda>(s3, zz). Inr (zz, s3)))"

text \<open>
  \<open>decodeDataUnit\<close>, with the IDCT as a parameter (\<open>idct\<close> in jsjpeg.js, the global \<open>idctFn\<close>
  in its successor).
\<close>

definition decodeDataUnit ::
    "(jsnum list \<Rightarrow> jsnum list) \<Rightarrow> 8 word decoder \<Rightarrow> 8 word decoder \<Rightarrow> jsnum list \<Rightarrow> nat
       \<Rightarrow> reader \<times> img \<Rightarrow> error + jsnum list \<times> (reader \<times> img)" where
  "decodeDataUnit idctFn dcTable acTable quantTable cid st =
     bindE (decodeCoeffs dcTable acTable cid st) (\<lambda>(zigzagCoeff, s).
     Inr (levelShift (idctFn (reordered (dequantized zigzagCoeff quantTable))), s))"

subsection \<open>The DC predictors in \<open>decodeScan\<close>\<close>




subsection \<open>Tables for worked examples\<close>

text \<open>
  An AC table with the two-bit codes 00, 01, 10 and 11 for the symbols 0x00 (EOB),
  0xF0 (ZRL), 0x30 and 0x21, and a DC table with the one-bit code 0 for the category 7,
  both filled the way \<open>parseHuffmanTable\<close> fills a \<open>HuffTree\<close>.
\<close>

definition test_acTable :: "8 word decoder" where
  "test_acTable =
     (case tree_table (\<lambda>i. if i = 2 then 4 else 0) [0x00, 0xF0, 0x30, 0x21] of
        Inr t \<Rightarrow> Tree t
      | Inl e \<Rightarrow> Tree (newHuffTree 0))"


subsection \<open>The loop as the specification words it\<close>



section \<open>Inverse DCT (index.html)\<close>

subsection \<open>\<open>idctChenWang\<close>: the integer IDCT\<close>

definition W1 :: int where "W1 = 2841"
definition W2 :: int where "W2 = 2676"
definition W3 :: int where "W3 = 2408"
definition W5 :: int where "W5 = 1609"
definition W6 :: int where "W6 = 1108"
definition W7 :: int where "W7 = 565"

text \<open>
  The operand of \<open><<\<close>, \<open>>>\<close> and \<open>|\<close> is converted to a 32-bit integer; \<open>undefined\<close> and \<open>NaN\<close>
  convert to 0, which is \<open>num0\<close>, and \<open>js_shl\<close>, \<open>js_sar\<close> and \<open>js_or\<close> do the rest.
\<close>

definition num0 :: "jsnum \<Rightarrow> int" where
  "num0 x = (case x of None \<Rightarrow> 0 | Some n \<Rightarrow> n)"

definition clampIdct :: "int \<Rightarrow> int" where
  "clampIdct val = (if val > 127 then 127 else if val < -128 then -128 else val)"

text \<open>
  \<open>idctrow(blk, idx)\<close>, on the contents of the block. The assignments to \<open>x1\<close> .. \<open>x7\<close> are the
  ones inside the condition of the shortcut; a later \<open>let\<close> of the same name is the
  reassignment of the variable.
\<close>

definition idctrow :: "jsnum list \<Rightarrow> nat \<Rightarrow> jsnum list" where
  "idctrow blk idx =
     (let x1 = Some (js_shl (num0 (arr_get blk (4 + idx))) 11);
          x2 = arr_get blk (6 + idx);
          x3 = arr_get blk (2 + idx);
          x4 = arr_get blk (1 + idx);
          x5 = arr_get blk (7 + idx);
          x6 = arr_get blk (5 + idx);
          x7 = arr_get blk (3 + idx)
      in if js_or (js_or (js_or (js_or (js_or (js_or (num0 x1) (num0 x2)) (num0 x3)) (num0 x4))
                    (num0 x5)) (num0 x6)) (num0 x7) = 0
         then (let tmp = Some (js_shl (num0 (arr_get blk (0 + idx))) 3)
               in fold (\<lambda>i b. arr_set b i tmp) [idx..<idx + 8] blk)
         else
           (let x0 = js_add (Some (js_shl (num0 (arr_get blk (0 + idx))) 11)) (Some 128);
                x8 = js_mul (Some W7) (js_add x4 x5);
                x4 = js_add x8 (js_mul (Some (W1 - W7)) x4);
                x5 = js_sub x8 (js_mul (Some (W1 + W7)) x5);
                x8 = js_mul (Some W3) (js_add x6 x7);
                x6 = js_sub x8 (js_mul (Some (W3 - W5)) x6);
                x7 = js_sub x8 (js_mul (Some (W3 + W5)) x7);
                x8 = js_add x0 x1;
                x0 = js_sub x0 x1;
                x1 = js_mul (Some W6) (js_add x3 x2);
                x2 = js_sub x1 (js_mul (Some (W2 + W6)) x2);
                x3 = js_add x1 (js_mul (Some (W2 - W6)) x3);
                x1 = js_add x4 x6;
                x4 = js_sub x4 x6;
                x6 = js_add x5 x7;
                x5 = js_sub x5 x7;
                x7 = js_add x8 x3;
                x8 = js_sub x8 x3;
                x3 = js_add x0 x2;
                x0 = js_sub x0 x2;
                x2 = Some (js_sar (num0 (js_add (js_mul (Some 181) (js_add x4 x5)) (Some 128))) 8);
                x4 = Some (js_sar (num0 (js_add (js_mul (Some 181) (js_sub x4 x5)) (Some 128))) 8);
                blk = arr_set blk (0 + idx) (Some (js_sar (num0 (js_add x7 x1)) 8));
                blk = arr_set blk (1 + idx) (Some (js_sar (num0 (js_add x3 x2)) 8));
                blk = arr_set blk (2 + idx) (Some (js_sar (num0 (js_add x0 x4)) 8));
                blk = arr_set blk (3 + idx) (Some (js_sar (num0 (js_add x8 x6)) 8));
                blk = arr_set blk (4 + idx) (Some (js_sar (num0 (js_sub x8 x6)) 8));
                blk = arr_set blk (5 + idx) (Some (js_sar (num0 (js_sub x0 x4)) 8));
                blk = arr_set blk (6 + idx) (Some (js_sar (num0 (js_sub x3 x2)) 8));
                blk = arr_set blk (7 + idx) (Some (js_sar (num0 (js_sub x7 x1)) 8))
            in blk))"

text \<open>\<open>idctcol(blk, idx)\<close>: the same along a column, every result clamped.\<close>

definition idctcol :: "jsnum list \<Rightarrow> nat \<Rightarrow> jsnum list" where
  "idctcol blk idx =
     (let x1 = Some (js_shl (num0 (arr_get blk (idx + 8 * 4))) 8);
          x2 = arr_get blk (idx + 8 * 6);
          x3 = arr_get blk (idx + 8 * 2);
          x4 = arr_get blk (idx + 8 * 1);
          x5 = arr_get blk (idx + 8 * 7);
          x6 = arr_get blk (idx + 8 * 5);
          x7 = arr_get blk (idx + 8 * 3)
      in if js_or (js_or (js_or (js_or (js_or (js_or (num0 x1) (num0 x2)) (num0 x3)) (num0 x4))
                    (num0 x5)) (num0 x6)) (num0 x7) = 0
         then (let tmp = Some (clampIdct (js_sar (num0 (js_add (arr_get blk (idx + 8 * 0)) (Some 32))) 6))
               in fold (\<lambda>i b. arr_set b (idx + 8 * i) tmp) [0..<8] blk)
         else
           (let x0 = js_add (Some (js_shl (num0 (arr_get blk (idx + 8 * 0))) 8)) (Some 8192);
                x8 = js_add (js_mul (Some W7) (js_add x4 x5)) (Some 4);
                x4 = Some (js_sar (num0 (js_add x8 (js_mul (Some (W1 - W7)) x4))) 3);
                x5 = Some (js_sar (num0 (js_sub x8 (js_mul (Some (W1 + W7)) x5))) 3);
                x8 = js_add (js_mul (Some W3) (js_add x6 x7)) (Some 4);
                x6 = Some (js_sar (num0 (js_sub x8 (js_mul (Some (W3 - W5)) x6))) 3);
                x7 = Some (js_sar (num0 (js_sub x8 (js_mul (Some (W3 + W5)) x7))) 3);
                x8 = js_add x0 x1;
                x0 = js_sub x0 x1;
                x1 = js_add (js_mul (Some W6) (js_add x3 x2)) (Some 4);
                x2 = Some (js_sar (num0 (js_sub x1 (js_mul (Some (W2 + W6)) x2))) 3);
                x3 = Some (js_sar (num0 (js_add x1 (js_mul (Some (W2 - W6)) x3))) 3);
                x1 = js_add x4 x6;
                x4 = js_sub x4 x6;
                x6 = js_add x5 x7;
                x5 = js_sub x5 x7;
                x7 = js_add x8 x3;
                x8 = js_sub x8 x3;
                x3 = js_add x0 x2;
                x0 = js_sub x0 x2;
                x2 = Some (js_sar (num0 (js_add (js_mul (Some 181) (js_add x4 x5)) (Some 128))) 8);
                x4 = Some (js_sar (num0 (js_add (js_mul (Some 181) (js_sub x4 x5)) (Some 128))) 8);
                blk = arr_set blk (idx + 8 * 0) (Some (clampIdct (js_sar (num0 (js_add x7 x1)) 14)));
                blk = arr_set blk (idx + 8 * 1) (Some (clampIdct (js_sar (num0 (js_add x3 x2)) 14)));
                blk = arr_set blk (idx + 8 * 2) (Some (clampIdct (js_sar (num0 (js_add x0 x4)) 14)));
                blk = arr_set blk (idx + 8 * 3) (Some (clampIdct (js_sar (num0 (js_add x8 x6)) 14)));
                blk = arr_set blk (idx + 8 * 4) (Some (clampIdct (js_sar (num0 (js_sub x8 x6)) 14)));
                blk = arr_set blk (idx + 8 * 5) (Some (clampIdct (js_sar (num0 (js_sub x0 x4)) 14)));
                blk = arr_set blk (idx + 8 * 6) (Some (clampIdct (js_sar (num0 (js_sub x3 x2)) 14)));
                blk = arr_set blk (idx + 8 * 7) (Some (clampIdct (js_sar (num0 (js_sub x7 x1)) 14)))
            in blk))"

text \<open>
  \<open>idctChenWang(coeffs)\<close>: \<open>idctrow\<close> on the rows starting at 0, 8, .., 56, then \<open>idctcol\<close> on
  the columns 0 .. 7, in place; the array is returned.
\<close>

definition idctChenWang :: "jsnum list \<Rightarrow> jsnum list" where
  "idctChenWang coeffs =
     fold (\<lambda>col blk. idctcol blk col) [0..<8]
       (fold (\<lambda>row blk. idctrow blk row) [0, 8, 16, 24, 32, 40, 48, 56] coeffs)"

subsection \<open>Double arithmetic with fractions\<close>

text \<open>
  The floating-point IDCTs work on doubles that are not integers. A finite double is a
  real number \<open>n * 2^e\<close> with an integer \<open>n\<close> of at most 53 bits; every arithmetic operator
  returns the exact result rounded to the nearest double, ties to the even one. \<open>rne\<close>
  rounds a real to the nearest integer, ties to even; \<open>fl x\<close> rounds \<open>x\<close> to 53 significant
  bits: for \<open>2^k \<le> \<bar>x\<bar> < 2^(k+1)\<close> the doubles are the multiples of \<open>2^(k-52)\<close>. The range of
  the exponent is not modelled (no overflow to \<open>Infinity\<close>, no subnormal numbers), nor the
  sign of a zero. A JavaScript number is \<open>Some x\<close>, or \<open>None\<close> for \<open>NaN\<close>.
\<close>

definition rne :: "real \<Rightarrow> int" where
  "rne x =
     (let f = \<lfloor>x\<rfloor>
      in if x - of_int f < 1 / 2 then f
         else if 1 / 2 < x - of_int f then f + 1
         else if even f then f else f + 1)"

definition fl :: "real \<Rightarrow> real" where
  "fl x =
     (if x = 0 then 0
      else let u = 2 powr (of_int (\<lfloor>log 2 \<bar>x\<bar>\<rfloor> - 52))
           in of_int (rne (x / u)) * u)"

definition fmul :: "real option \<Rightarrow> real option \<Rightarrow> real option" where
  "fmul a b = (case (a, b) of (Some x, Some y) \<Rightarrow> Some (fl (x * y)) | _ \<Rightarrow> None)"

definition fadd :: "real option \<Rightarrow> real option \<Rightarrow> real option" where
  "fadd a b = (case (a, b) of (Some x, Some y) \<Rightarrow> Some (fl (x + y)) | _ \<Rightarrow> None)"

definition fdiv :: "real option \<Rightarrow> real option \<Rightarrow> real option" where
  "fdiv a b = (case (a, b) of (Some x, Some y) \<Rightarrow> Some (fl (x / y)) | _ \<Rightarrow> None)"

text \<open>An element of a coefficient array as an operand: \<open>undefined\<close> becomes \<open>NaN\<close>.\<close>

definition num :: "jsnum \<Rightarrow> real option" where
  "num x = map_option real_of_int x"

text \<open>
  \<open>Math.round\<close>: the nearest integer, a tie going up; \<open>NaN\<close> stays \<open>NaN\<close>.
  \<open>Math.SQRT2\<close> and \<open>Math.PI\<close> are the doubles nearest to the square root of 2 and to pi.
\<close>

definition Math_round :: "real option \<Rightarrow> jsnum" where
  "Math_round x = map_option (\<lambda>r. \<lfloor>r + 1 / 2\<rfloor>) x"

definition Math_SQRT2 :: real where
  "Math_SQRT2 = 6369051672525773 / 2 ^ 52"

definition Math_PI :: real where
  "Math_PI = 884279719003555 / 2 ^ 48"

subsection \<open>\<open>idct\<close> and \<open>idctCached\<close>: the floating-point IDCTs\<close>

text \<open>
  \<^verbatim>\<open>const INV_SQRT2 = 1 / Math.SQRT2;  function C(val) { return (val === 0 ? INV_SQRT2 : 1); }\<close>
\<close>

definition INV_SQRT2 :: real where
  "INV_SQRT2 = fl (1 / Math_SQRT2)"

definition C :: "nat \<Rightarrow> real" where
  "C val = (if val = 0 then INV_SQRT2 else 1)"

text \<open>
  The argument \<^verbatim>\<open>(((2*x)+1) * u * Math.PI) / 16\<close> of the cosine. \<open>Math.cos\<close> is an
  approximation that the language leaves to the implementation, except that the cosine
  of 0 is 1; it is the parameter \<open>mcos\<close> of the two IDCTs.
\<close>

definition angle :: "nat \<Rightarrow> nat \<Rightarrow> real" where
  "angle x u = fl (fl (real ((2 * x + 1) * u) * Math_PI) / 16)"

text \<open>
  \<open>idct(coeffs)\<close>. One term of the sum is
  \<^verbatim>\<open>C(u) * C(v) * coeffs[vstart + u] * Math.cos(..x, u..) * Math.cos(..y, v..)\<close>, multiplied
  from the left; the sum runs over \<open>v\<close> and, inside, over \<open>u\<close>; the result at \<open>ystart + x\<close> is
  \<^verbatim>\<open>Math.round(sum / 4)\<close>. The result array has the length of \<open>coeffs\<close> (holes from 64 on).
\<close>

definition idct_term :: "(real \<Rightarrow> real) \<Rightarrow> jsnum list \<Rightarrow> nat \<Rightarrow> nat \<Rightarrow> nat \<times> nat \<Rightarrow> real option" where
  "idct_term mcos coeffs x y vu =
     (case vu of (v, u) \<Rightarrow>
        fmul (fmul (fmul (Some (fl (C u * C v))) (num (arr_get coeffs (v * 8 + u))))
                   (Some (mcos (angle x u))))
             (Some (mcos (angle y v))))"

definition idct_sum :: "(real \<Rightarrow> real) \<Rightarrow> jsnum list \<Rightarrow> nat \<Rightarrow> nat \<Rightarrow> real option" where
  "idct_sum mcos coeffs x y =
     foldl (\<lambda>sum vu. fadd sum (idct_term mcos coeffs x y vu)) (Some 0)
           (List.product [0..<8] [0..<8])"

definition idct :: "(real \<Rightarrow> real) \<Rightarrow> jsnum list \<Rightarrow> jsnum list" where
  "idct mcos coeffs =
     map (\<lambda>i. Math_round (fdiv (idct_sum mcos coeffs (i mod 8) (i div 8)) (Some 4))) [0..<64]
       @ replicate (length coeffs - 64) None"

text \<open>
  \<open>initIDCTCache()\<close> fills \<open>idctCache[i][j]\<close> with the cosine for \<open>i\<close>, \<open>j\<close>; \<open>idctCached\<close> fills
  the cache on its first call and reads \<open>idctCache[x][u]\<close> and \<open>idctCache[y][v]\<close> where \<open>idct\<close>
  calls \<open>Math.cos\<close>.
\<close>

definition initIDCTCache :: "(real \<Rightarrow> real) \<Rightarrow> real list list" where
  "initIDCTCache mcos = map (\<lambda>i. map (\<lambda>j. mcos (angle i j)) [0..<8]) [0..<8]"

definition idctCached_term ::
    "real list list \<Rightarrow> jsnum list \<Rightarrow> nat \<Rightarrow> nat \<Rightarrow> nat \<times> nat \<Rightarrow> real option" where
  "idctCached_term idctCache coeffs x y vu =
     (case vu of (v, u) \<Rightarrow>
        fmul (fmul (fmul (Some (fl (C u * C v))) (num (arr_get coeffs (v * 8 + u))))
                   (Some (idctCache ! x ! u)))
             (Some (idctCache ! y ! v)))"

definition idctCached :: "(real \<Rightarrow> real) \<Rightarrow> jsnum list \<Rightarrow> jsnum list" where
  "idctCached mcos coeffs =
     (let idctCache = initIDCTCache mcos
      in map (\<lambda>i. Math_round (fdiv
                 (foldl (\<lambda>sum vu. fadd sum (idctCached_term idctCache coeffs (i mod 8) (i div 8) vu))
                        (Some 0) (List.product [0..<8] [0..<8]))
                 (Some 4))) [0..<64]
           @ replicate (length coeffs - 64) None)"

section \<open>EXTEND: properties\<close>

lemma toInt32_id: "- (2 ^ 31) \<le> x \<Longrightarrow> x < 2 ^ 31 \<Longrightarrow> toInt32 x = x"
  by (simp add: toInt32_def)

lemma js_shl_exact:
  assumes "n < 32" "- (2 ^ 31) \<le> x * 2 ^ n" "x * 2 ^ n < 2 ^ 31"
  shows "js_shl x n = x * 2 ^ n"
proof -
  have p: "(1::int) \<le> 2 ^ n" by simp
  have "- (2 ^ 31) \<le> x"
  proof (rule ccontr)
    assume "\<not> - (2 ^ 31) \<le> x"
    then have neg: "x < - (2 ^ 31)" by simp
    then have "x * 2 ^ n \<le> x * 1"
      using p by (intro mult_left_mono_neg) auto
    with neg assms(2) show False by simp
  qed
  moreover have "x < 2 ^ 31"
  proof (rule ccontr)
    assume "\<not> x < 2 ^ 31"
    then have pos: "2 ^ 31 \<le> x" by simp
    then have "x * 1 \<le> x * 2 ^ n"
      using p by (intro mult_left_mono) auto
    with pos assms(3) show False by simp
  qed
  ultimately have "toInt32 x = x" by (rule toInt32_id)
  then show ?thesis
    using assms by (simp add: js_shl_def toInt32_id)
qed

lemma js_shl_minus1: "t < 32 \<Longrightarrow> js_shl (-1) t = - (2 ^ t)"
proof -
  assume t: "t < 32"
  then have "t \<le> 31" by simp
  then have le: "(2::int) ^ t \<le> 2 ^ 31"
    by (intro power_increasing) auto
  have "(0::int) < 2 ^ t" and "(0::int) < 2 ^ 31" by simp_all
  then have lt: "(-1) * (2::int) ^ t < 2 ^ 31" by linarith
  have ge: "- (2 ^ 31) \<le> (-1) * (2::int) ^ t" using le by simp
  show ?thesis
    using js_shl_exact [OF t ge lt] by simp
qed

lemma extend_closed:
  "t < 32 \<Longrightarrow> extend v t = (if t = 0 then 0 else if v < 2 ^ (t - 1) then v - 2 ^ t + 1 else v)"
  by (simp add: extend_def js_shl_minus1 Let_def)

text \<open>
  C4. For every length \<open>t\<close> from 0 to 11 and every raw value \<open>0 \<le> v < 2^t\<close>, \<open>extend v t\<close>
  is 0 when \<open>t = 0\<close>, is \<open>v + (-1 << t) + 1\<close> (that is \<open>v - 2^t + 1\<close>) when \<open>v < 2^(t-1)\<close>,
  and is \<open>v\<close> otherwise; the four worked values of the Annex F table are included.
\<close>

theorem extend_spec:
  "t \<le> 11 \<Longrightarrow> 0 \<le> v \<Longrightarrow> v < 2 ^ t \<Longrightarrow>
     extend v t = (if t = 0 then 0 else if v < 2 ^ (t - 1) then v + js_shl (-1) t + 1 else v)
   \<and> js_shl (-1) t = - (2 ^ t)
   \<and> extend 0 1 = -1 \<and> extend 1 1 = 1 \<and> extend 5 5 = -26 \<and> extend 2047 11 = 2047"
  by (simp add: extend_closed js_shl_minus1)

theorem extend_spec_witness:
  "(5::nat) \<le> 11 \<and> (0::int) \<le> 5 \<and> (5::int) < 2 ^ 5 \<and> extend 5 5 = 5 + js_shl (-1) 5 + 1
   \<and> js_shl (-1) 5 = - 32 \<and> extend 5 5 = -26"
  using extend_spec [of 5 5] by simp

section \<open>The bit reader: lemmas\<close>

lemma toInt32_stb: "toInt32 x = signed_take_bit 31 x"
  by (simp add: toInt32_def signed_take_bit_eq_take_bit_shift take_bit_eq_mod)

lemma bit_toInt32: "bit (toInt32 x) k = bit x (min 31 k)"
  by (simp add: toInt32_stb bit_signed_take_bit_iff)

lemma toInt32_small: "0 \<le> x \<Longrightarrow> x < 2 ^ 31 \<Longrightarrow> toInt32 x = x"
  by (simp add: toInt32_def)

lemma js_sar_byte: "0 \<le> b \<Longrightarrow> b < 256 \<Longrightarrow> js_sar b 7 = of_bool (bit b 7)"
proof -
  assume b: "0 \<le> b" "b < 256"
  then have "b div 128 = 0 \<or> b div 128 = 1" by auto
  then have "b div 128 = of_bool (odd (b div 2 ^ 7))" by auto
  then show ?thesis
    using b by (simp add: js_sar_def toInt32_small bit_iff_odd)
qed

lemma js_next_byte:
  "0 \<le> b \<Longrightarrow> b < 256 \<Longrightarrow> js_and (js_shl b (Suc 0)) 0xFF = take_bit 8 (b * 2)"
proof -
  assume b: "0 \<le> b" "b < 256"
  have "js_shl b (Suc 0) = b * 2"
    using b by (simp add: js_shl_def toInt32_small)
  moreover have "toInt32 (b * 2) = b * 2"
    using b by (simp add: toInt32_small)
  moreover have "(b * 2) AND 255 = take_bit 8 (b * 2)"
    by (simp add: take_bit_eq_mask mask_eq_exp_minus_1)
  ultimately show ?thesis
    by (simp add: js_and_def toInt32_small)
qed

lemma take_bit_byte_range: "0 \<le> take_bit 8 (x::int) \<and> take_bit 8 x < 256"
  by (simp add: take_bit_eq_mod)

lemma nextBit_loaded:
  "cnt r = Suc n \<Longrightarrow> 0 \<le> byte r \<Longrightarrow> byte r < 256 \<Longrightarrow>
   nextBit (r, im) = Inr (of_bool (bit (byte r) 7), (r\<lparr>cnt := n, byte := take_bit 8 (byte r * 2)\<rparr>, im))"
  by (simp add: nextBit_def bindE_def js_sar_byte js_next_byte)

lemma read_loaded:
  "cnt r = n \<Longrightarrow> n \<le> 8 \<Longrightarrow> 0 \<le> byte r \<Longrightarrow> byte r < 256 \<Longrightarrow>
   read_bits nextBit n (r, im) =
     Inr (map (\<lambda>i. of_bool (bit (byte r) (7 - i))) [0..<n],
          (r\<lparr>cnt := 0, byte := take_bit 8 (push_bit n (byte r))\<rparr>, im))"
proof (induction n arbitrary: r)
  case 0
  then show ?case by (simp add: take_bit_eq_mod)
next
  case (Suc n)
  define b' where "b' = take_bit 8 (byte r * 2)"
  define r' where "r' = r\<lparr>cnt := n, byte := b'\<rparr>"
  have step: "nextBit (r, im) = Inr (of_bool (bit (byte r) 7), (r', im))"
    using Suc.prems by (simp add: nextBit_loaded r'_def b'_def)
  have r': "cnt r' = n" "byte r' = b'" "0 \<le> b'" "b' < 256"
    using take_bit_byte_range [of "byte r * 2"] by (simp_all add: r'_def b'_def)
  have rest: "read_bits nextBit n (r', im) =
     Inr (map (\<lambda>i. of_bool (bit b' (7 - i))) [0..<n],
          (r'\<lparr>cnt := 0, byte := take_bit 8 (push_bit n b')\<rparr>, im))"
    using Suc.IH [of r'] Suc.prems r' by simp
  have bits: "map (\<lambda>i. of_bool (bit b' (7 - i))) [0..<n]
      = map (\<lambda>i. (of_bool (bit (byte r) (7 - Suc i)) :: int)) [0..<n]"
  proof (rule map_cong [OF refl])
    fix i assume "i \<in> set [0..<n]"
    then have "i < 7" using Suc.prems by simp
    then have eq: "7 - i = Suc (6 - i)" and eq': "7 - Suc i = 6 - i" by simp_all
    have "bit b' (Suc (6 - i)) = bit (byte r) (6 - i)"
      using \<open>i < 7\<close> bit_double_Suc_iff [of "byte r" "6 - i"]
      by (auto simp: b'_def bit_take_bit_iff mult.commute)
    then show "(of_bool (bit b' (7 - i)) :: int) = of_bool (bit (byte r) (7 - Suc i))"
      by (simp only: eq eq')
  qed
  have fin: "take_bit 8 (push_bit n b') = take_bit 8 (push_bit (Suc n) (byte r))"
    unfolding b'_def
    by (rule bit_eqI) (auto simp: bit_take_bit_iff bit_push_bit_iff bit_double_iff mult.commute
        dest: bit_imp_le_length)
  have split: "map (\<lambda>i. (of_bool (bit (byte r) (7 - i)) :: int)) [0..<Suc n]
      = of_bool (bit (byte r) 7) # map (\<lambda>i. of_bool (bit (byte r) (7 - Suc i))) [0..<n]"
    by (simp only: upt_conv_Cons [OF zero_less_Suc] list.map map_Suc_upt [symmetric] map_map comp_def)
       simp
  have upd: "r'\<lparr>cnt := 0, byte := take_bit 8 (push_bit n b')\<rparr>
      = r\<lparr>cnt := 0, byte := take_bit 8 (push_bit (Suc n) (byte r))\<rparr>"
    by (simp add: r'_def fin)
  have "read_bits nextBit (Suc n) (r, im) =
      Inr (of_bool (bit (byte r) 7) # map (\<lambda>i. of_bool (bit b' (7 - i))) [0..<n],
           (r'\<lparr>cnt := 0, byte := take_bit 8 (push_bit n b')\<rparr>, im))"
    by (simp add: step rest del: push_bit_Suc)
  then show ?case
    by (simp only: bits upd split)
qed

lemma nextBit_after_load:
  "cnt r = 0 \<Longrightarrow> loadByte (r, im) = Inr (r', im') \<Longrightarrow> cnt r' \<noteq> 0 \<Longrightarrow>
   nextBit (r, im) = nextBit (r', im')"
  by (simp add: nextBit_def bindE_def)

lemma loadByte_stuffed:
  assumes "index r = int k - 1" "Suc k < length (view r)"
    and "view r ! k = 0xFF" "view r ! Suc k = 0"
  shows "loadByte (r, im) = Inr (r\<lparr>index := int k + 1, byte := 0xFF, cnt := 8\<rparr>, im)"
  using assms by (simp add: loadByte_def nextByte_def bindE_def Let_def nat_add_distrib)

lemma read_bits_cong_first:
  "nb s = nb s' \<Longrightarrow> read_bits nb (Suc n) s = read_bits nb (Suc n) s'"
  by simp

lemma read_bits_add:
  "read_bits nb (m + n) s =
     (case read_bits nb m s of Inl e \<Rightarrow> Inl e
      | Inr (bs, s') \<Rightarrow> (case read_bits nb n s' of Inl e \<Rightarrow> Inl e
          | Inr (cs, s'') \<Rightarrow> Inr (bs @ cs, s'')))"
  by (induction m arbitrary: s) (auto split: sum.splits prod.splits)

lemma bits_of_FF: "map (\<lambda>i. of_bool (bit (255::int) (7 - i))) [0..<8] = [1, 1, 1, 1, 1, 1, 1, 1 :: int]"
  by (simp add: upt_rec bit_numeral_rec)

lemma destuff_nextBit:
  assumes "cnt r = 0" "index r = int k - 1" "Suc k < length (view r)"
    and "view r ! k = 0xFF" "view r ! Suc k = 0"
  shows "read_bits nextBit 8 (r, im) =
      Inr ([1, 1, 1, 1, 1, 1, 1, 1], (r\<lparr>index := int k + 1, byte := 0, cnt := 0\<rparr>, im))"
proof -
  let ?r = "r\<lparr>index := int k + 1, byte := 0xFF, cnt := 8\<rparr>"
  have "nextBit (r, im) = nextBit (?r, im)"
    using assms by (intro nextBit_after_load loadByte_stuffed) simp_all
  then have "read_bits nextBit (Suc 7) (r, im) = read_bits nextBit (Suc 7) (?r, im)"
    by (rule read_bits_cong_first)
  then have "read_bits nextBit 8 (r, im) = read_bits nextBit 8 (?r, im)"
    by simp
  also have "\<dots> = Inr (map (\<lambda>i. of_bool (bit (byte ?r) (7 - i))) [0..<8],
          (?r\<lparr>cnt := 0, byte := take_bit 8 (push_bit 8 (byte ?r))\<rparr>, im))"
    by (rule read_loaded) simp_all
  finally show ?thesis
    using bits_of_FF by (simp add: take_bit_eq_mod push_bit_eq_mult)
qed

lemma bit_js_shl: "n < 32 \<Longrightarrow> k < 31 \<Longrightarrow> bit (js_shl x n) k = (n \<le> k \<and> bit x (k - n))"
proof -
  assume "n < 32" "k < 31"
  then have "min 31 k = k" "min 31 (k - n) = k - n" "n mod 32 = n" by simp_all
  then show ?thesis
    by (simp add: js_shl_def bit_toInt32 push_bit_eq_mult [symmetric] bit_push_bit_iff)
qed

lemma bit_small: "0 \<le> (y::int) \<Longrightarrow> y < 2 ^ n \<Longrightarrow> bit y k \<Longrightarrow> k < n"
proof -
  assume "0 \<le> y" "y < 2 ^ n" "bit y k"
  then have "take_bit n y = y" by (simp add: take_bit_int_eq_self)
  then have "bit (take_bit n y) k" using \<open>bit y k\<close> by simp
  then show "k < n" by (simp add: bit_take_bit_iff)
qed

lemma bit_fill:
  assumes "k < 31" "0 \<le> y" "y < 256"
  shows "bit (js_or (js_shl x 8) y) k = (if k < 8 then bit y k else bit x (k - 8))"
proof -
  have "toInt32 y = y" using assms by (simp add: toInt32_small)
  moreover have "bit y k \<longrightarrow> k < 8"
    using bit_small [of y 8 k] assms by simp
  moreover have "bit (toInt32 (js_shl x 8)) k = (8 \<le> k \<and> bit x (k - 8))"
    using assms by (simp add: bit_toInt32 bit_js_shl min_def)
  ultimately show ?thesis
    by (auto simp: js_or_def bit_or_iff)
qed

lemma take_bit_fill:
  assumes "s + 8 \<le> 31" "0 \<le> y" "y < 256"
  shows "take_bit (s + 8) (js_or (js_shl x 8) y) = take_bit s x * 256 + y"
proof -
  have "take_bit s x * 256 + y = concat_bit 8 y (take_bit s x)"
    using assms by (simp add: concat_bit_eq take_bit_int_eq_self push_bit_eq_mult)
  also have "\<dots> = take_bit (s + 8) (js_or (js_shl x 8) y)"
  proof (rule bit_eqI)
    fix k
    show "bit (concat_bit 8 y (take_bit s x)) k = bit (take_bit (s + 8) (js_or (js_shl x 8) y)) k"
    proof (cases "k < s + 8")
      case True
      then have "k < 31" using assms by simp
      then show ?thesis
        using True assms by (auto simp: bit_concat_bit_iff bit_take_bit_iff bit_fill)
    next
      case False
      then show ?thesis
        by (auto simp: bit_concat_bit_iff bit_take_bit_iff)
    qed
  qed
  finally show ?thesis by simp
qed

lemma extract_bits:
  assumes "n \<le> 30" "d + n \<le> 31"
  shows "js_and (js_sar B d) (js_shl 1 n - 1) = take_bit (d + n) B div 2 ^ d"
proof -
  have "(2::int) ^ n \<le> 2 ^ 30" using assms by (intro power_increasing) auto
  then have p: "(2::int) ^ n < 2 ^ 31" by simp
  have "- (2 ^ 31) \<le> (0::int)" "(0::int) \<le> 2 ^ n" by simp_all
  then have p': "- (2 ^ 31) \<le> 1 * (2::int) ^ n" by linarith
  have shl: "js_shl 1 n = 2 ^ n"
    using js_shl_exact [of n 1] assms p p' by simp
  have m: "toInt32 (2 ^ n - 1) = 2 ^ n - 1"
    using p by (intro toInt32_small) auto
  have d: "d mod 32 = d" using assms by simp
  have "toInt32 (js_sar B d) AND mask n = drop_bit d (take_bit (d + n) B)"
  proof (rule bit_eqI)
    fix k
    show "bit (toInt32 (js_sar B d) AND mask n) k = bit (drop_bit d (take_bit (d + n) B)) k"
    proof (cases "k < n")
      case True
      then have "min 31 k = k" "min 31 (d + k) = d + k" using assms by simp_all
      then show ?thesis
        using True
        by (simp add: bit_and_iff bit_mask_iff bit_toInt32 js_sar_def d
            drop_bit_eq_div [symmetric] bit_drop_bit_eq bit_take_bit_iff)
    next
      case False
      then show ?thesis
        by (simp add: bit_and_iff bit_mask_iff bit_drop_bit_eq bit_take_bit_iff)
    qed
  qed
  then show ?thesis
    by (simp add: js_and_def shl m mask_eq_exp_minus_1 drop_bit_eq_div)
qed

lemma peek_no_fill:
  assumes "buffSize r = int s" "n \<le> s" "n \<le> 30" "s \<le> 31"
  shows "peek n (r, im) = Inr (take_bit s (buffer r) div 2 ^ (s - n), (r, im))"
proof -
  have "peekLoop n (r, im) = Inr (r, im)"
    using assms by (subst peekLoop.simps) simp
  moreover have "js_and (js_sar (buffer r) (s - n)) (js_shl 1 n - 1)
      = take_bit (s - n + n) (buffer r) div 2 ^ (s - n)"
    using assms by (intro extract_bits) auto
  ultimately show ?thesis
    using assms by (simp add: peek_def bindE_def nat_diff_distrib)
qed

lemma peek_fill:
  assumes "buffSize r < int n" "peekFill (r, im) = Inr st"
  shows "peek n (r, im) = peek n st"
proof -
  have "peekLoop n (r, im) = peekLoop n st"
    using assms by (subst peekLoop.simps) simp
  then show ?thesis by (simp add: peek_def)
qed

lemma peekFill_stuffed:
  assumes "index r = int k - 1" "Suc k < length (view r)"
    and "view r ! k = 0xFF" "view r ! Suc k = 0"
  shows "peekFill (r, im) =
        Inr (r\<lparr>index := int k + 1, buffer := js_or (js_shl (buffer r) 8) 0xFF,
               buffSize := buffSize r + 8\<rparr>, im)"
  using assms
  by (simp add: peekFill_def hasMoreBytes_def nextByte_def bindE_def Let_def nat_add_distrib)

lemma peekFill_plain:
  assumes "index r = int k - 1" "k < length (view r)" "view r ! k \<noteq> 0xFF"
  shows "peekFill (r, im) =
        Inr (r\<lparr>index := int k, buffer := js_or (js_shl (buffer r) 8) (uint (view r ! k)),
               buffSize := buffSize r + 8\<rparr>, im)"
proof -
  have "uint (view r ! k) \<noteq> 255"
    using assms(3) by (simp add: word_uint_eq_iff)
  then show ?thesis
    using assms
    by (simp add: peekFill_def hasMoreBytes_def nextByte_def bindE_def Let_def nat_add_distrib)
qed

lemma peek_destuff_one:
  assumes "index r = int k - 1" "Suc k < length (view r)"
    and "view r ! k = 0xFF" "view r ! Suc k = 0"
    and "buffSize r = int s" "s < n" "n \<le> s + 8" "n \<le> 16"
  shows "peek n (r, im) =
      Inr ((take_bit s (buffer r) * 256 + 255) div 2 ^ (s + 8 - n),
           (r\<lparr>index := int k + 1, buffer := js_or (js_shl (buffer r) 8) 0xFF,
              buffSize := int s + 8\<rparr>, im))"
proof -
  let ?r1 = "r\<lparr>index := int k + 1, buffer := js_or (js_shl (buffer r) 8) 0xFF,
              buffSize := buffSize r + 8\<rparr>"
  have "peek n (r, im) = peek n (?r1, im)"
    using assms by (intro peek_fill peekFill_stuffed) simp_all
  also have "\<dots> = Inr (take_bit (s + 8) (buffer ?r1) div 2 ^ (s + 8 - n), (?r1, im))"
    using assms by (intro peek_no_fill) simp_all
  also have "take_bit (s + 8) (buffer ?r1) = take_bit s (buffer r) * 256 + 255"
    using assms by (simp add: take_bit_fill)
  finally show ?thesis using assms by simp
qed

lemma peek_destuff_two:
  assumes "index r = int k - 1" "Suc (Suc k) < length (view r)"
    and "view r ! k = 0xFF" "view r ! Suc k = 0" "view r ! Suc (Suc k) \<noteq> 0xFF"
    and "buffSize r = int s" "s + 8 < n" "n \<le> 16"
  shows "peek n (r, im) =
      Inr ((take_bit s (buffer r) * 65536 + 255 * 256 + uint (view r ! Suc (Suc k))) div 2 ^ (s + 16 - n),
           (r\<lparr>index := int k + 2,
              buffer := js_or (js_shl (js_or (js_shl (buffer r) 8) 0xFF) 8) (uint (view r ! Suc (Suc k))),
              buffSize := int s + 16\<rparr>, im))"
proof -
  let ?x = "uint (view r ! Suc (Suc k))"
  let ?r1 = "r\<lparr>index := int k + 1, buffer := js_or (js_shl (buffer r) 8) 0xFF,
              buffSize := buffSize r + 8\<rparr>"
  let ?r2 = "?r1\<lparr>index := int (Suc (Suc k)), buffer := js_or (js_shl (buffer ?r1) 8) (uint (view ?r1 ! Suc (Suc k))),
              buffSize := buffSize ?r1 + 8\<rparr>"
  have x: "0 \<le> ?x" "?x < 256"
    using uint_lt2p [of "view r ! Suc (Suc k)"] by simp_all
  have "peek n (r, im) = peek n (?r1, im)"
    using assms by (intro peek_fill peekFill_stuffed) simp_all
  also have "\<dots> = peek n (?r2, im)"
    using assms by (intro peek_fill peekFill_plain) simp_all
  also have "\<dots> = Inr (take_bit (s + 16) (buffer ?r2) div 2 ^ (s + 16 - n), (?r2, im))"
    using assms by (intro peek_no_fill) simp_all
  also have "take_bit (s + 16) (buffer ?r2) = take_bit (s + 8) (buffer ?r1) * 256 + ?x"
    using assms x take_bit_fill [of "s + 8" ?x "buffer ?r1"] by (simp add: add.commute)
  also have "take_bit (s + 8) (buffer ?r1) = take_bit s (buffer r) * 256 + 255"
    using assms by (simp add: take_bit_fill)
  finally show ?thesis using assms by (simp add: mult.commute)
qed

lemma loadByte_plain:
  assumes "index r = int k - 1" "k < length (view r)" "view r ! k \<noteq> 0xFF"
  shows "loadByte (r, im) = Inr (r\<lparr>index := int k, byte := uint (view r ! k), cnt := 8\<rparr>, im)"
proof -
  have "uint (view r ! k) \<noteq> 255"
    using assms(3) by (simp add: word_uint_eq_iff)
  then show ?thesis
    using assms by (simp add: loadByte_def nextByte_def bindE_def Let_def)
qed

lemma plain_nextBit:
  assumes "cnt r = 0" "index r = int k - 1" "k < length (view r)" "view r ! k \<noteq> 0xFF"
  shows "read_bits nextBit 8 (r, im) =
      Inr (map (\<lambda>i. of_bool (bit (uint (view r ! k)) (7 - i))) [0..<8],
           (r\<lparr>index := int k, byte := 0, cnt := 0\<rparr>, im))"
proof -
  let ?r = "r\<lparr>index := int k, byte := uint (view r ! k), cnt := 8\<rparr>"
  have x: "0 \<le> uint (view r ! k)" "uint (view r ! k) < 256"
    using uint_lt2p [of "view r ! k"] by simp_all
  have "nextBit (r, im) = nextBit (?r, im)"
    using assms by (intro nextBit_after_load loadByte_plain) simp_all
  then have "read_bits nextBit (Suc 7) (r, im) = read_bits nextBit (Suc 7) (?r, im)"
    by (rule read_bits_cong_first)
  then have "read_bits nextBit 8 (r, im) = read_bits nextBit 8 (?r, im)"
    by simp
  also have "\<dots> = Inr (map (\<lambda>i. of_bool (bit (byte ?r) (7 - i))) [0..<8],
          (?r\<lparr>cnt := 0, byte := take_bit 8 (push_bit 8 (byte ?r))\<rparr>, im))"
    using x by (intro read_loaded) simp_all
  finally show ?thesis
    by (simp add: take_bit_eq_mod push_bit_eq_mult)
qed

lemma destuff_nextBit16:
  assumes "cnt r = 0" "index r = int k - 1" "Suc (Suc k) < length (view r)"
    and "view r ! k = 0xFF" "view r ! Suc k = 0" "view r ! Suc (Suc k) \<noteq> 0xFF"
  shows "read_bits nextBit 16 (r, im) =
      Inr ([1, 1, 1, 1, 1, 1, 1, 1] @ map (\<lambda>i. of_bool (bit (uint (view r ! Suc (Suc k))) (7 - i))) [0..<8],
           (r\<lparr>index := int k + 2, byte := 0, cnt := 0\<rparr>, im))"
proof -
  let ?r1 = "r\<lparr>index := int k + 1, byte := 0, cnt := 0\<rparr>"
  have a: "read_bits nextBit 8 (r, im) = Inr ([1, 1, 1, 1, 1, 1, 1, 1], (?r1, im))"
    using assms by (intro destuff_nextBit) simp_all
  have b: "read_bits nextBit 8 (?r1, im) =
      Inr (map (\<lambda>i. of_bool (bit (uint (view ?r1 ! Suc (Suc k))) (7 - i))) [0..<8],
           (?r1\<lparr>index := int (Suc (Suc k)), byte := 0, cnt := 0\<rparr>, im))"
    using assms by (intro plain_nextBit) simp_all
  have "read_bits nextBit (8 + 8) (r, im) =
      Inr ([1, 1, 1, 1, 1, 1, 1, 1] @ map (\<lambda>i. of_bool (bit (uint (view r ! Suc (Suc k))) (7 - i))) [0..<8],
           (r\<lparr>index := int k + 2, byte := 0, cnt := 0\<rparr>, im))"
    unfolding read_bits_add a using b by (simp del: read_bits.simps)
  then show ?thesis by simp
qed

text \<open>
  C7. Destuffing. Let the next byte of the buffer be 0xFF and the one after it 0x00.
  With \<open>nextBit\<close> (shift register empty): eight bit reads return eight 1 bits and leave the
  reader at the stuffed zero with an empty register; when the byte \<open>x\<close> after the zero is not
  0xFF itself, sixteen bit reads return the bits of 0xFF followed by the bits of \<open>x\<close>.
  With \<open>peek\<close> (\<open>s\<close> bits still in the look-ahead register, its low \<open>s\<close> bits): one fill step
  appends 0xFF and skips the zero; \<open>peek\<close> of \<open>n\<close> bits, \<open>s < n \<le> s + 8\<close>, returns the top \<open>n\<close>
  bits of the buffered bits followed by 0xFF; \<open>peek\<close> of \<open>m\<close> bits, \<open>s + 8 < m \<le> 16\<close>, returns the
  top \<open>m\<close> bits of the buffered bits followed by 0xFF and \<open>x\<close>. The zero is in no returned bit.
  On the buffer 0xFF, 0x00, 0xAB sixteen bit reads return the bits of 0xFF followed by the
  bits of 0xAB, and \<open>peek\<close> of 16 bits returns 0xFFAB.
\<close>

theorem destuffing:
  "(cnt r = 0 \<and> index r = int k - 1 \<and> Suc k < length (view r)
      \<and> view r ! k = 0xFF \<and> view r ! Suc k = 0 \<longrightarrow>
      read_bits nextBit 8 (r, im) =
        Inr ([1, 1, 1, 1, 1, 1, 1, 1], (r\<lparr>index := int k + 1, byte := 0, cnt := 0\<rparr>, im)))
   \<and> (cnt r = 0 \<and> index r = int k - 1 \<and> Suc (Suc k) < length (view r)
      \<and> view r ! k = 0xFF \<and> view r ! Suc k = 0 \<and> view r ! Suc (Suc k) \<noteq> 0xFF \<longrightarrow>
      read_bits nextBit 16 (r, im) =
        Inr ([1, 1, 1, 1, 1, 1, 1, 1]
               @ map (\<lambda>i. of_bool (bit (uint (view r ! Suc (Suc k))) (7 - i))) [0..<8],
             (r\<lparr>index := int k + 2, byte := 0, cnt := 0\<rparr>, im)))
   \<and> (index r = int k - 1 \<and> Suc k < length (view r)
      \<and> view r ! k = 0xFF \<and> view r ! Suc k = 0 \<longrightarrow>
      peekFill (r, im) =
        Inr (r\<lparr>index := int k + 1, buffer := js_or (js_shl (buffer r) 8) 0xFF,
               buffSize := buffSize r + 8\<rparr>, im))
   \<and> (index r = int k - 1 \<and> Suc k < length (view r)
      \<and> view r ! k = 0xFF \<and> view r ! Suc k = 0
      \<and> buffSize r = int s \<and> s < n \<and> n \<le> s + 8 \<and> n \<le> 16 \<longrightarrow>
      peek n (r, im) =
        Inr ((take_bit s (buffer r) * 256 + 255) div 2 ^ (s + 8 - n),
             (r\<lparr>index := int k + 1, buffer := js_or (js_shl (buffer r) 8) 0xFF,
                buffSize := int s + 8\<rparr>, im)))
   \<and> (index r = int k - 1 \<and> Suc (Suc k) < length (view r)
      \<and> view r ! k = 0xFF \<and> view r ! Suc k = 0 \<and> view r ! Suc (Suc k) \<noteq> 0xFF
      \<and> buffSize r = int s \<and> s + 8 < m \<and> m \<le> 16 \<longrightarrow>
      peek m (r, im) =
        Inr ((take_bit s (buffer r) * 65536 + 255 * 256 + uint (view r ! Suc (Suc k)))
               div 2 ^ (s + 16 - m),
             (r\<lparr>index := int k + 2,
                buffer := js_or (js_shl (js_or (js_shl (buffer r) 8) 0xFF) 8)
                            (uint (view r ! Suc (Suc k))),
                buffSize := int s + 16\<rparr>, im)))
   \<and> read_bits nextBit 16 (reset [0xFF, 0x00, 0xAB], im) =
        Inr ([1, 1, 1, 1, 1, 1, 1, 1, 1, 0, 1, 0, 1, 0, 1, 1],
             ((reset [0xFF, 0x00, 0xAB])\<lparr>index := 2\<rparr>, im))
   \<and> peek 16 (reset [0xFF, 0x00, 0xAB], im) =
        Inr (0xFFAB, ((reset [0xFF, 0x00, 0xAB])\<lparr>index := 2, buffer := 0xFFAB, buffSize := 16\<rparr>, im))"
proof (intro conjI impI)
  assume "cnt r = 0 \<and> index r = int k - 1 \<and> Suc k < length (view r)
      \<and> view r ! k = 0xFF \<and> view r ! Suc k = 0"
  then show "read_bits nextBit 8 (r, im) =
        Inr ([1, 1, 1, 1, 1, 1, 1, 1], (r\<lparr>index := int k + 1, byte := 0, cnt := 0\<rparr>, im))"
    by (intro destuff_nextBit) simp_all
next
  assume "cnt r = 0 \<and> index r = int k - 1 \<and> Suc (Suc k) < length (view r)
      \<and> view r ! k = 0xFF \<and> view r ! Suc k = 0 \<and> view r ! Suc (Suc k) \<noteq> 0xFF"
  then show "read_bits nextBit 16 (r, im) =
        Inr ([1, 1, 1, 1, 1, 1, 1, 1]
               @ map (\<lambda>i. of_bool (bit (uint (view r ! Suc (Suc k))) (7 - i))) [0..<8],
             (r\<lparr>index := int k + 2, byte := 0, cnt := 0\<rparr>, im))"
    by (intro destuff_nextBit16) simp_all
next
  assume "index r = int k - 1 \<and> Suc k < length (view r)
      \<and> view r ! k = 0xFF \<and> view r ! Suc k = 0"
  then show "peekFill (r, im) =
        Inr (r\<lparr>index := int k + 1, buffer := js_or (js_shl (buffer r) 8) 0xFF,
               buffSize := buffSize r + 8\<rparr>, im)"
    by (intro peekFill_stuffed) simp_all
next
  assume "index r = int k - 1 \<and> Suc k < length (view r)
      \<and> view r ! k = 0xFF \<and> view r ! Suc k = 0
      \<and> buffSize r = int s \<and> s < n \<and> n \<le> s + 8 \<and> n \<le> 16"
  then show "peek n (r, im) =
        Inr ((take_bit s (buffer r) * 256 + 255) div 2 ^ (s + 8 - n),
             (r\<lparr>index := int k + 1, buffer := js_or (js_shl (buffer r) 8) 0xFF,
                buffSize := int s + 8\<rparr>, im))"
    by (intro peek_destuff_one) simp_all
next
  assume "index r = int k - 1 \<and> Suc (Suc k) < length (view r)
      \<and> view r ! k = 0xFF \<and> view r ! Suc k = 0 \<and> view r ! Suc (Suc k) \<noteq> 0xFF
      \<and> buffSize r = int s \<and> s + 8 < m \<and> m \<le> 16"
  then show "peek m (r, im) =
        Inr ((take_bit s (buffer r) * 65536 + 255 * 256 + uint (view r ! Suc (Suc k)))
               div 2 ^ (s + 16 - m),
             (r\<lparr>index := int k + 2,
                buffer := js_or (js_shl (js_or (js_shl (buffer r) 8) 0xFF) 8)
                            (uint (view r ! Suc (Suc k))),
                buffSize := int s + 16\<rparr>, im))"
    by (intro peek_destuff_two) simp_all
next
  show "read_bits nextBit 16 (reset [0xFF, 0x00, 0xAB], im) =
        Inr ([1, 1, 1, 1, 1, 1, 1, 1, 1, 0, 1, 0, 1, 0, 1, 1],
             ((reset [0xFF, 0x00, 0xAB])\<lparr>index := 2\<rparr>, im))"
    by code_simp
next
  show "peek 16 (reset [0xFF, 0x00, 0xAB], im) =
        Inr (0xFFAB, ((reset [0xFF, 0x00, 0xAB])\<lparr>index := 2, buffer := 0xFFAB, buffSize := 16\<rparr>, im))"
    by code_simp
qed

theorem destuffing_witness:
  "cnt (reset [0xFF, 0x00, 0xAB]) = 0 \<and> index (reset [0xFF, 0x00, 0xAB]) = int 0 - 1
   \<and> Suc (Suc 0) < length (view (reset [0xFF, 0x00, 0xAB]))
   \<and> view (reset [0xFF, 0x00, 0xAB]) ! 0 = 0xFF \<and> view (reset [0xFF, 0x00, 0xAB]) ! Suc 0 = 0
   \<and> view (reset [0xFF, 0x00, 0xAB]) ! Suc (Suc 0) \<noteq> 0xFF
   \<and> buffSize (reset [0xFF, 0x00, 0xAB]) = int 0 \<and> (0::nat) < 4 \<and> (4::nat) \<le> 0 + 8
   \<and> (0::nat) + 8 < 12 \<and> (12::nat) \<le> 16
   \<and> read_bits nextBit 8 (reset [0xFF, 0x00, 0xAB], \<lparr>dcpred = [], frameY = 0\<rparr>) =
        Inr ([1, 1, 1, 1, 1, 1, 1, 1],
             ((reset [0xFF, 0x00, 0xAB])\<lparr>index := 1, byte := 0, cnt := 0\<rparr>, \<lparr>dcpred = [], frameY = 0\<rparr>))
   \<and> peekFill (reset [0xFF, 0x00, 0xAB], \<lparr>dcpred = [], frameY = 0\<rparr>) =
        Inr ((reset [0xFF, 0x00, 0xAB])\<lparr>index := 1, buffer := 0xFF, buffSize := 8\<rparr>,
             \<lparr>dcpred = [], frameY = 0\<rparr>)
   \<and> peek 4 (reset [0xFF, 0x00, 0xAB], \<lparr>dcpred = [], frameY = 0\<rparr>) =
        Inr (15, ((reset [0xFF, 0x00, 0xAB])\<lparr>index := 1, buffer := 0xFF, buffSize := 8\<rparr>,
             \<lparr>dcpred = [], frameY = 0\<rparr>))
   \<and> peek 12 (reset [0xFF, 0x00, 0xAB], \<lparr>dcpred = [], frameY = 0\<rparr>) =
        Inr (4090, ((reset [0xFF, 0x00, 0xAB])\<lparr>index := 2, buffer := 0xFFAB, buffSize := 16\<rparr>,
             \<lparr>dcpred = [], frameY = 0\<rparr>))"
  using destuffing [of "reset [0xFF, 0x00, 0xAB]" 0 "\<lparr>dcpred = [], frameY = 0\<rparr>" 0 4 12]
  by (simp add: reset_def js_or_def js_shl_def toInt32_def)

text \<open>
  C8. The claim asks that a bit requested from an exhausted buffer is returned as 1.
  \<open>peek\<close> does that, \<open>nextBit\<close> does not: after the eight bits of the one-byte buffer 0xA5 the
  buffer is exhausted; \<open>peek\<close> of one bit returns 1 there without moving the read position,
  while the ninth \<open>nextBit\<close> raises the \<open>RangeError\<close> of \<open>DataView.getUint8\<close>.
\<close>

theorem nextBit_end_of_buffer:
  "read_bits nextBit 8 (reset [0xA5], \<lparr>dcpred = [], frameY = 0\<rparr>)
     = Inr ([1, 0, 1, 0, 0, 1, 0, 1], ((reset [0xA5])\<lparr>index := 0\<rparr>, \<lparr>dcpred = [], frameY = 0\<rparr>))
   \<and> \<not> hasMoreBytes ((reset [0xA5])\<lparr>index := 0\<rparr>)
   \<and> nextBit ((reset [0xA5])\<lparr>index := 0\<rparr>, \<lparr>dcpred = [], frameY = 0\<rparr>) = Inl RangeError
   \<and> peek 1 ((reset [0xA5])\<lparr>index := 0\<rparr>, \<lparr>dcpred = [], frameY = 0\<rparr>)
       = Inr (1, ((reset [0xA5])\<lparr>index := 0, buffer := 0xFF, buffSize := 8\<rparr>,
                  \<lparr>dcpred = [], frameY = 0\<rparr>))"
  by code_simp

section \<open>Dequantize and reorder: what is written and what is not\<close>

lemma dequantized_from_length [simp]: "length (dequantized_from i zz qt) = length zz"
  by (induction i zz qt rule: dequantized_from.induct)
     (subst dequantized_from.simps, simp)

lemma dequantized_from_nth:
  "k < length zz \<Longrightarrow>
   dequantized_from i zz qt ! k = (if i \<le> k then js_mul (zz ! k) (arr_get qt k) else zz ! k)"
proof (induction i zz qt rule: dequantized_from.induct)
  case (1 i zz qt)
  show ?case
  proof (cases "i < length zz")
    case True
    define zz' where "zz' = zz[i := js_mul (zz ! i) (arr_get qt i)]"
    have unf: "dequantized_from i zz qt = dequantized_from (Suc i) zz' qt"
      using True by (subst dequantized_from.simps) (simp add: zz'_def)
    have ih: "dequantized_from (Suc i) zz' qt ! k
        = (if Suc i \<le> k then js_mul (zz' ! k) (arr_get qt k) else zz' ! k)"
      using "1.IH" [OF True] "1.prems" by (simp add: zz'_def)
    have nth: "zz' ! k = (if k = i then js_mul (zz ! i) (arr_get qt i) else zz ! k)"
      using "1.prems" by (simp add: zz'_def nth_list_update)
    show ?thesis
      unfolding unf ih nth by (cases "k = i") auto
  next
    case False
    then show ?thesis
      using "1.prems" by (subst dequantized_from.simps) simp
  qed
qed

lemma dequantize_from_heap:
  "zz < length h \<Longrightarrow> qt < length h \<Longrightarrow> zz \<noteq> qt \<Longrightarrow>
   dequantize_from i h zz qt = h[zz := dequantized_from i (h ! zz) (h ! qt)]"
proof (induction i h zz qt rule: dequantize_from.induct)
  case (1 i h zz qt)
  show ?case
  proof (cases "i < length (h ! zz)")
    case True
    let ?h = "h[zz := (h ! zz)[i := js_mul (h ! zz ! i) (arr_get (h ! qt) i)]]"
    have "dequantize_from (Suc i) ?h zz qt = ?h[zz := dequantized_from (Suc i) (?h ! zz) (?h ! qt)]"
      using 1 True by simp
    then show ?thesis
      using 1 True
      by (subst dequantize_from.simps, subst dequantized_from.simps) simp
  next
    case False
    then show ?thesis
      using 1
      by (subst dequantize_from.simps, subst dequantized_from.simps) (simp add: list_update_same_conv)
  qed
qed

lemma reordered_from_length:
  "length r = length coeff \<Longrightarrow> length (reordered_from i coeff r) = length coeff"
  by (induction i coeff r rule: reordered_from.induct)
     (subst reordered_from.simps, simp add: arr_set_def)

lemma reordered_from_nth:
  "length r = length coeff \<Longrightarrow> k < length coeff \<Longrightarrow>
   reordered_from i coeff r ! k = (if i \<le> k then reorder_elem coeff k else r ! k)"
proof (induction i coeff r rule: reordered_from.induct)
  case (1 i coeff r)
  show ?case
  proof (cases "i < length coeff")
    case True
    define r' where "r' = arr_set r i (reorder_elem coeff i)"
    have r': "r' = r[i := reorder_elem coeff i]"
      using True "1.prems" by (simp add: r'_def arr_set_def)
    have unf: "reordered_from i coeff r = reordered_from (Suc i) coeff r'"
      using True by (subst reordered_from.simps) (simp add: r'_def)
    have ih: "reordered_from (Suc i) coeff r' ! k
        = (if Suc i \<le> k then reorder_elem coeff k else r' ! k)"
      using "1.IH" [OF True] "1.prems" by (simp add: r'_def [symmetric] r')
    have nth: "r' ! k = (if k = i then reorder_elem coeff i else r ! k)"
      using "1.prems" by (simp add: r' nth_list_update)
    show ?thesis
      unfolding unf ih nth by (cases "k = i") auto
  next
    case False
    then show ?thesis
      using "1.prems" by (subst reordered_from.simps) simp
  qed
qed

text \<open>
  C9 as stated fails: \<open>dequantize\<close> works in place. With the 64 coefficients and the
  64-entry table of \<open>testDequantize\<close> (references 0 and 1 of the heap), the coefficient array
  holds the products after the call and no longer its old contents.
\<close>

theorem dequantize_in_place_counterexample:
  "dequantize [test_coeffs, test_quantTable] 0 1 = [test_dequantized, test_quantTable]
   \<and> length test_coeffs = 64 \<and> length test_quantTable = 64
   \<and> dequantize [test_coeffs, test_quantTable] 0 1 ! 0 \<noteq> test_coeffs"
  by code_simp

text \<open>
  C9 amended. \<open>dequantize\<close> overwrites the coefficient array with the element-wise products
  and, when the table is another array, writes nothing else: the table and every other array
  keep their contents. \<open>reorder\<close> allocates a new array for its result and leaves every
  existing array, its argument included, unchanged. Both results are functions of the
  contents of the arguments only. The products are those of the code as long as the
  operands and the products are integers of magnitude at most \<open>2^53\<close>, which is the
  first hypothesis.
\<close>

theorem dequantize_reorder_frame:
  "list_all (\<lambda>i. exact_mul (h ! zz ! i) (arr_get (h ! qt) i)) [0..<length (h ! zz)] \<Longrightarrow>
   zz < length h \<Longrightarrow> qt < length h \<Longrightarrow> zz \<noteq> qt \<Longrightarrow> c < length h \<Longrightarrow>
     length (dequantize h zz qt) = length h
   \<and> dequantize h zz qt ! zz = dequantized (h ! zz) (h ! qt)
   \<and> (\<forall>a. a < length h \<and> a \<noteq> zz \<longrightarrow> dequantize h zz qt ! a = h ! a)
   \<and> length (dequantized (h ! zz) (h ! qt)) = length (h ! zz)
   \<and> (\<forall>i. i < length (h ! zz) \<longrightarrow>
         dequantized (h ! zz) (h ! qt) ! i = js_mul (h ! zz ! i) (arr_get (h ! qt) i))
   \<and> snd (reorder h c) = length h
   \<and> fst (reorder h c) ! snd (reorder h c) = reordered (h ! c)
   \<and> (\<forall>a. a < length h \<longrightarrow> fst (reorder h c) ! a = h ! a)
   \<and> length (reordered (h ! c)) = length (h ! c)
   \<and> (\<forall>i. i < length (h ! c) \<longrightarrow>
         reordered (h ! c) ! i = (if i < 64 then arr_get (h ! c) (ZIGZAG ! i) else None))"
proof -
  assume a: "zz < length h" "qt < length h" "zz \<noteq> qt" "c < length h"
  have d: "dequantize h zz qt = h[zz := dequantized (h ! zz) (h ! qt)]"
    using a by (simp add: dequantize_def dequantized_def dequantize_from_heap)
  have z: "length ZIGZAG = 64" by (simp add: ZIGZAG_def)
  show ?thesis
    using a
    by (simp add: d nth_append reorder_def)
       (simp add: dequantized_def dequantized_from_nth reordered_def reordered_from_length
          reordered_from_nth reorder_elem_def z)
qed

lemma test_arrays_exact:
  "list_all (\<lambda>i. exact_mul ([test_coeffs, test_quantTable] ! 0 ! i)
                     (arr_get ([test_coeffs, test_quantTable] ! 1) i))
            [0..<length ([test_coeffs, test_quantTable] ! 0)]"
  by code_simp

theorem dequantize_reorder_frame_witness:
  "list_all (\<lambda>i. exact_mul ([test_coeffs, test_quantTable] ! 0 ! i)
                     (arr_get ([test_coeffs, test_quantTable] ! 1) i))
            [0..<length ([test_coeffs, test_quantTable] ! 0)]
   \<and> (0::nat) < length [test_coeffs, test_quantTable]
   \<and> (1::nat) < length [test_coeffs, test_quantTable] \<and> (0::nat) \<noteq> 1
   \<and> dequantize [test_coeffs, test_quantTable] 0 1 ! 0 = dequantized test_coeffs test_quantTable
   \<and> dequantize [test_coeffs, test_quantTable] 0 1 ! 1 = test_quantTable
   \<and> length (dequantized test_coeffs test_quantTable) = length test_coeffs
   \<and> fst (reorder [test_coeffs, test_quantTable] 0) ! 0 = test_coeffs
   \<and> fst (reorder [test_coeffs, test_quantTable] 0) ! 1 = test_quantTable
   \<and> fst (reorder [test_coeffs, test_quantTable] 0) ! snd (reorder [test_coeffs, test_quantTable] 0)
        = reordered test_coeffs"
  using dequantize_reorder_frame [OF test_arrays_exact, of 0] test_arrays_exact
  by (simp add: reorder_def)

section \<open>Huffman decoders: canonical codes\<close>

lemma arr_get_set: "arr_get (arr_set xs i v) k = (if k = i then v else arr_get xs k)"
  by (auto simp: arr_get_def arr_set_def nth_append nth_list_update)

lemma arr_set_append: "arr_set xs (length xs) v = xs @ [v]"
  by (simp add: arr_set_def)

subsection \<open>Lists made of consecutive blocks\<close>

lemma blocks_length:
  "length (concat (map (\<lambda>i. map (g i) [0..<n i]) [a..<b])) = (\<Sum>i\<leftarrow>[a..<b]. (n i :: nat))"
  by (simp add: length_concat comp_def)

lemma blocks_nth:
  "a \<le> i \<Longrightarrow> i < b \<Longrightarrow> m < (n i :: nat) \<Longrightarrow>
   concat (map (\<lambda>j. map (g j) [0..<n j]) [a..<b]) ! ((\<Sum>j\<leftarrow>[a..<i]. n j) + m) = g i m"
proof (induction "i - a" arbitrary: a)
  case 0
  then have "a = i" by simp
  then have "[a..<b] = i # [Suc i..<b]" using 0 by (simp add: upt_conv_Cons)
  then show ?case
    using 0 \<open>a = i\<close> by (simp add: nth_append)
next
  case (Suc d)
  then have lt: "a < i" by simp
  then have "a < b" using Suc by simp
  then have ab: "[a..<b] = a # [Suc a..<b]" by (simp add: upt_conv_Cons)
  have ai: "[a..<i] = a # [Suc a..<i]" using lt by (simp add: upt_conv_Cons)
  have "concat (map (\<lambda>j. map (g j) [0..<n j]) [Suc a..<b]) ! ((\<Sum>j\<leftarrow>[Suc a..<i]. n j) + m) = g i m"
    using Suc lt by (intro Suc.hyps) auto
  then show ?case
    by (simp add: ab ai nth_append add.assoc)
qed

lemma blocks_decompose:
  "k < (\<Sum>i\<leftarrow>[a..<b]. (n i :: nat)) \<Longrightarrow>
   \<exists>i m. a \<le> i \<and> i < b \<and> m < n i \<and> k = (\<Sum>j\<leftarrow>[a..<i]. n j) + m"
proof (induction b)
  case 0
  then show ?case by simp
next
  case (Suc b)
  show ?case
  proof (cases "a \<le> b")
    case False
    then show ?thesis using Suc.prems by simp
  next
    case True
    then have s: "(\<Sum>i\<leftarrow>[a..<Suc b]. n i) = (\<Sum>i\<leftarrow>[a..<b]. n i) + n b" by simp
    show ?thesis
    proof (cases "k < (\<Sum>i\<leftarrow>[a..<b]. n i)")
      case True
      then obtain i m where "a \<le> i" "i < b" "m < n i" "k = (\<Sum>j\<leftarrow>[a..<i]. n j) + m"
        using Suc.IH by blast
      then show ?thesis by (intro exI [of _ i] exI [of _ m]) simp
    next
      case False
      then have "k - (\<Sum>i\<leftarrow>[a..<b]. n i) < n b" "k = (\<Sum>j\<leftarrow>[a..<b]. n j) + (k - (\<Sum>i\<leftarrow>[a..<b]. n i))"
        using Suc.prems s by simp_all
      then show ?thesis using \<open>a \<le> b\<close>
        by (intro exI [of _ b] exI [of _ "k - (\<Sum>i\<leftarrow>[a..<b]. n i)"]) simp
    qed
  qed
qed

subsection \<open>Counts, first codes and weights\<close>

lemma count_below_Suc: "1 \<le> i \<Longrightarrow> count_below bs (Suc i) = count_below bs i + bs i"
  by (simp add: count_below_def)

lemma count_below_mono: "i \<le> j \<Longrightarrow> count_below bs i \<le> count_below bs j"
proof (induction j)
  case 0
  then show ?case by simp
next
  case (Suc j)
  show ?case
  proof (cases "i = Suc j")
    case True
    then show ?thesis by simp
  next
    case False
    then have ij: "i \<le> j" using Suc.prems by simp
    show ?thesis
    proof (cases "1 \<le> j")
      case True
      then show ?thesis using Suc.IH [OF ij] by (simp add: count_below_Suc)
    next
      case False
      then show ?thesis using ij by (simp add: count_below_def)
    qed
  qed
qed

lemma first_code_Suc: "1 \<le> i \<Longrightarrow> first_code bs (Suc i) = (first_code bs i + bs i) * 2"
  by (cases i) simp_all

lemma weight_below_Suc:
  "1 \<le> i \<Longrightarrow> weight_below bs (Suc i) = weight_below bs i + bs i * 2 ^ (NUM_HUFFMAN_LENGTHS - i)"
  by (simp add: weight_below_def)

lemma weight_below_mono: "i \<le> j \<Longrightarrow> weight_below bs i \<le> weight_below bs j"
proof (induction j)
  case 0
  then show ?case by simp
next
  case (Suc j)
  show ?case
  proof (cases "i = Suc j")
    case True
    then show ?thesis by simp
  next
    case False
    then have ij: "i \<le> j" using Suc.prems by simp
    show ?thesis
    proof (cases "1 \<le> j")
      case True
      then show ?thesis using Suc.IH [OF ij] by (simp add: weight_below_Suc)
    next
      case False
      then show ?thesis using ij by (simp add: weight_below_def)
    qed
  qed
qed

lemma first_code_weight:
  "1 \<le> i \<Longrightarrow> i \<le> NUM_HUFFMAN_LENGTHS \<Longrightarrow>
   first_code bs i * 2 ^ (NUM_HUFFMAN_LENGTHS - i) = weight_below bs i"
proof (induction i)
  case 0
  then show ?case by simp
next
  case (Suc i)
  show ?case
  proof (cases "1 \<le> i")
    case False
    then have "i = 0" by simp
    then show ?thesis by (simp add: weight_below_def)
  next
    case True
    then have ih: "first_code bs i * 2 ^ (NUM_HUFFMAN_LENGTHS - i) = weight_below bs i"
      using Suc by simp
    have e: "NUM_HUFFMAN_LENGTHS - i = Suc (NUM_HUFFMAN_LENGTHS - Suc i)"
      using Suc.prems by simp
    have "first_code bs (Suc i) * 2 ^ (NUM_HUFFMAN_LENGTHS - Suc i)
        = (first_code bs i + bs i) * 2 ^ (NUM_HUFFMAN_LENGTHS - i)"
      using True by (simp add: first_code_Suc e)
    also have "\<dots> = weight_below bs (Suc i)"
      using True ih by (simp add: weight_below_Suc add_mult_distrib)
    finally show ?thesis .
  qed
qed

lemma valid_weight: "valid_table bs vals \<Longrightarrow> weight_below bs (Suc NUM_HUFFMAN_LENGTHS) \<le> 2 ^ NUM_HUFFMAN_LENGTHS"
  by (simp add: valid_table_def weight_below_def)

lemma code_bound:
  assumes "valid_table bs vals" "1 \<le> i" "i \<le> NUM_HUFFMAN_LENGTHS"
  shows "first_code bs i + bs i \<le> 2 ^ i"
proof -
  have "(first_code bs i + bs i) * 2 ^ (NUM_HUFFMAN_LENGTHS - i) = weight_below bs (Suc i)"
    using assms by (simp add: add_mult_distrib first_code_weight weight_below_Suc)
  also have "\<dots> \<le> weight_below bs (Suc NUM_HUFFMAN_LENGTHS)"
    using assms by (intro weight_below_mono) simp
  also have "\<dots> \<le> 2 ^ NUM_HUFFMAN_LENGTHS"
    using assms by (intro valid_weight)
  also have "\<dots> = 2 ^ i * 2 ^ (NUM_HUFFMAN_LENGTHS - i)"
    using assms by (simp add: power_add [symmetric])
  finally show ?thesis by simp
qed

subsection \<open>The tables generated by initDecoder\<close>

lemma huffsize_blocks:
  "generate_huffsize bs =
     concat (map (\<lambda>i. map (\<lambda>m. Some (int i)) [0..<bs i]) [1..<Suc NUM_HUFFMAN_LENGTHS]) @ [Some 0]"
  by (simp only: generate_huffsize_def map_replicate_trivial)

lemma huffsize_length:
  "length (generate_huffsize bs) = Suc (count_below bs (Suc NUM_HUFFMAN_LENGTHS))"
  by (simp only: huffsize_blocks blocks_length count_below_def length_append) simp

lemma huffsize_block:
  assumes "1 \<le> i" "i \<le> NUM_HUFFMAN_LENGTHS" "m < bs i"
  shows "arr_get (generate_huffsize bs) (count_below bs i + m) = Some (int i)"
proof -
  let ?xs = "concat (map (\<lambda>i. map (\<lambda>m. Some (int i)) [0..<bs i]) [1..<Suc NUM_HUFFMAN_LENGTHS])"
  have "count_below bs i + m < count_below bs (Suc i)"
    using assms by (simp add: count_below_Suc)
  also have "\<dots> \<le> count_below bs (Suc NUM_HUFFMAN_LENGTHS)"
    using assms by (intro count_below_mono) simp
  finally have lt: "count_below bs i + m < length ?xs"
    by (simp only: blocks_length count_below_def)
  have "?xs ! (count_below bs i + m) = Some (int i)"
    unfolding count_below_def using assms by (intro blocks_nth) simp_all
  then show ?thesis
    using lt by (simp only: huffsize_blocks arr_get_def nth_append length_append) simp
qed

lemma huffsize_sentinel:
  "arr_get (generate_huffsize bs) (count_below bs (Suc NUM_HUFFMAN_LENGTHS)) = Some 0"
proof -
  let ?xs = "concat (map (\<lambda>i. map (\<lambda>m. Some (int i)) [0..<bs i]) [1..<Suc NUM_HUFFMAN_LENGTHS])"
  have "length ?xs = count_below bs (Suc NUM_HUFFMAN_LENGTHS)"
    by (simp only: blocks_length count_below_def)
  then show ?thesis
    by (simp only: huffsize_blocks arr_get_def nth_append length_append) simp
qed

lemma symbol_decompose:
  assumes "k < count_below bs (Suc NUM_HUFFMAN_LENGTHS)"
  shows "\<exists>i m. 1 \<le> i \<and> i \<le> NUM_HUFFMAN_LENGTHS \<and> m < bs i \<and> k = count_below bs i + m"
proof -
  obtain i m where "1 \<le> i" "i < Suc NUM_HUFFMAN_LENGTHS" "m < bs i" "k = (\<Sum>j\<leftarrow>[1..<i]. bs j) + m"
    using blocks_decompose [where k = k and a = 1 and b = "Suc NUM_HUFFMAN_LENGTHS" and n = bs] assms
    unfolding count_below_def by blast
  then show ?thesis
    unfolding count_below_def by (intro exI [of _ i] exI [of _ m]) simp
qed

lemma block_order:
  assumes "1 \<le> i'" "m' < bs i'" "count_below bs i \<le> count_below bs i' + m'"
  shows "i \<le> i'"
proof (rule ccontr)
  assume "\<not> i \<le> i'"
  then have "Suc i' \<le> i" by simp
  then have "count_below bs (Suc i') \<le> count_below bs i" by (rule count_below_mono)
  then show False using assms by (simp add: count_below_Suc)
qed

lemma huffsize_next_block:
  assumes "1 \<le> i" "i \<le> NUM_HUFFMAN_LENGTHS"
  shows "arr_get (generate_huffsize bs) (count_below bs (Suc i)) \<noteq> Some (int i)"
proof (cases "count_below bs (Suc i) < count_below bs (Suc NUM_HUFFMAN_LENGTHS)")
  case True
  then obtain i' m' where d: "1 \<le> i'" "i' \<le> NUM_HUFFMAN_LENGTHS" "m' < bs i'"
      "count_below bs (Suc i) = count_below bs i' + m'"
    using symbol_decompose by blast
  then have "Suc i \<le> i'" using block_order [of i' m' bs "Suc i"] by simp
  moreover have "arr_get (generate_huffsize bs) (count_below bs (Suc i)) = Some (int i')"
    using d huffsize_block [of i' m' bs] by simp
  ultimately show ?thesis by simp
next
  case False
  moreover have "count_below bs (Suc i) \<le> count_below bs (Suc NUM_HUFFMAN_LENGTHS)"
    using assms by (intro count_below_mono) simp
  ultimately have "count_below bs (Suc i) = count_below bs (Suc NUM_HUFFMAN_LENGTHS)" by simp
  then show ?thesis using assms by (simp add: huffsize_sentinel)
qed

lemma canonical_codes_length: "length (canonical_codes bs n) = count_below bs n"
  by (simp only: canonical_codes_def blocks_length count_below_def)

lemma canonical_codes_Suc:
  "1 \<le> n \<Longrightarrow> canonical_codes bs (Suc n)
     = canonical_codes bs n @ map (\<lambda>m. Some (int (first_code bs n + m))) [0..<bs n]"
  by (simp add: canonical_codes_def)

lemma canonical_codes_nth:
  assumes "1 \<le> i" "i < n" "m < bs i"
  shows "arr_get (canonical_codes bs n) (count_below bs i + m) = Some (int (first_code bs i + m))"
proof -
  have "count_below bs i + m < count_below bs (Suc i)"
    using assms by (simp add: count_below_Suc)
  also have "\<dots> \<le> count_below bs n"
    using assms by (intro count_below_mono) simp
  finally have lt: "count_below bs i + m < length (canonical_codes bs n)"
    by (simp only: canonical_codes_length)
  have "canonical_codes bs n ! (count_below bs i + m) = Some (int (first_code bs i + m))"
    unfolding count_below_def canonical_codes_def using assms by (intro blocks_nth) simp_all
  then show ?thesis
    using lt by (simp add: arr_get_def)
qed

lemma code_inner_block:
  assumes i: "1 \<le> i" "i \<le> NUM_HUFFMAN_LENGTHS" and m: "m \<le> bs i"
    and len: "length hc = count_below bs i + m"
  shows "code_inner (generate_huffsize bs) (int i) (count_below bs i + m, c, hc)
      = (count_below bs (Suc i), c + int (bs i - m),
         hc @ map (\<lambda>j. Some (c + int j)) [0..<bs i - m])"
  using m len
proof (induction "bs i - m" arbitrary: m c hc)
  case 0
  then have "m = bs i" by simp
  then have "count_below bs i + m = count_below bs (Suc i)"
    using i by (simp add: count_below_Suc)
  then show ?case
    using huffsize_next_block [OF i, of bs] \<open>m = bs i\<close>
    by (subst code_inner.simps) simp
next
  case (Suc d)
  then have mlt: "m < bs i" by simp
  have get: "arr_get (generate_huffsize bs) (count_below bs i + m) = Some (int i)"
    using i mlt by (rule huffsize_block)
  have step: "code_inner (generate_huffsize bs) (int i) (count_below bs i + m, c, hc)
      = code_inner (generate_huffsize bs) (int i) (count_below bs i + Suc m, c + 1, hc @ [Some c])"
    using get Suc.prems by (subst code_inner.simps) (simp add: arr_set_def)
  have ih: "code_inner (generate_huffsize bs) (int i) (count_below bs i + Suc m, c + 1, hc @ [Some c])
      = (count_below bs (Suc i), (c + 1) + int (bs i - Suc m),
         (hc @ [Some c]) @ map (\<lambda>j. Some ((c + 1) + int j)) [0..<bs i - Suc m])"
    using Suc.hyps(2) mlt Suc.prems by (intro Suc.hyps(1)) simp_all
  have l: "[0..<bs i - m] = 0 # map Suc [0..<bs i - Suc m]"
    using mlt by (simp add: upt_conv_Cons map_Suc_upt Suc_diff_Suc del: upt_Suc)
  show ?case
    using mlt by (simp only: step ih l) (simp add: comp_def algebra_simps Suc_diff_Suc)
qed

lemma canonical_codes_stable:
  "i \<le> n \<Longrightarrow> count_below bs i = count_below bs n \<Longrightarrow> canonical_codes bs i = canonical_codes bs n"
proof (induction n)
  case 0
  then show ?case by simp
next
  case (Suc n)
  show ?case
  proof (cases "i = Suc n")
    case True
    then show ?thesis by simp
  next
    case False
    then have ij: "i \<le> n" using Suc.prems by simp
    show ?thesis
    proof (cases "1 \<le> n")
      case True
      have "count_below bs i \<le> count_below bs n" using ij by (rule count_below_mono)
      then have "bs n = 0" "count_below bs i = count_below bs n"
        using Suc.prems True by (simp_all add: count_below_Suc)
      then show ?thesis
        using Suc.IH [OF ij] True by (simp add: canonical_codes_Suc)
    next
      case False
      then have "n = 0" "i = 0" using ij by simp_all
      then show ?thesis by (simp add: canonical_codes_def)
    qed
  qed
qed

lemma first_code_zero: "count_below bs i = 0 \<Longrightarrow> first_code bs i = 0"
proof (induction i)
  case 0
  then show ?case by simp
next
  case (Suc i)
  show ?case
  proof (cases "1 \<le> i")
    case True
    then show ?thesis using Suc by (simp add: count_below_Suc first_code_Suc)
  next
    case False
    then have "i = 0" by simp
    then show ?thesis by simp
  qed
qed

lemma js_shl_double: "0 \<le> c \<Longrightarrow> c < 2 ^ 30 \<Longrightarrow> js_shl c 1 = c * 2"
proof -
  assume c: "0 \<le> c" "c < 2 ^ 30"
  have "js_shl c 1 = c * 2 ^ 1"
    using c by (intro js_shl_exact) auto
  then show ?thesis by simp
qed

lemma code_outer_canonical:
  assumes valid: "valid_table bs vals"
  shows "1 \<le> si \<Longrightarrow> si \<le> Suc NUM_HUFFMAN_LENGTHS \<Longrightarrow>
    code_outer (generate_huffsize bs)
       (count_below bs si, int (first_code bs si), int si, canonical_codes bs si)
     = Inr (canonical_codes bs (Suc NUM_HUFFMAN_LENGTHS))"
proof (induction "Suc NUM_HUFFMAN_LENGTHS - si" arbitrary: si)
  case 0
  then have "si = Suc NUM_HUFFMAN_LENGTHS" by simp
  then show ?case
    by (subst code_outer.simps) (simp add: huffsize_sentinel)
next
  case (Suc d)
  then have si: "1 \<le> si" "si \<le> NUM_HUFFMAN_LENGTHS" by simp_all
  let ?T = "count_below bs (Suc NUM_HUFFMAN_LENGTHS)"
  have le: "count_below bs si \<le> ?T" using si by (intro count_below_mono) simp
  show ?case
  proof (cases "count_below bs si = ?T")
    case True
    then have "canonical_codes bs si = canonical_codes bs (Suc NUM_HUFFMAN_LENGTHS)"
      using si by (intro canonical_codes_stable) simp_all
    then show ?thesis
      using True by (subst code_outer.simps) (simp add: huffsize_sentinel)
  next
    case False
    then have "count_below bs si < ?T" using le by simp
    then obtain i' m' where d: "1 \<le> i'" "i' \<le> NUM_HUFFMAN_LENGTHS" "m' < bs i'"
        "count_below bs si = count_below bs i' + m'"
      using symbol_decompose by blast
    then have ge: "si \<le> i'" using block_order [of i' m' bs si] by simp
    have get: "arr_get (generate_huffsize bs) (count_below bs si) = Some (int i')"
      using d huffsize_block [of i' m' bs] by simp
    have inner: "code_inner (generate_huffsize bs) (int si)
        (count_below bs si, int (first_code bs si), canonical_codes bs si)
      = (count_below bs (Suc si), int (first_code bs si) + int (bs si),
         canonical_codes bs (Suc si))"
      using code_inner_block [OF si, of 0 bs "canonical_codes bs si" "int (first_code bs si)"] si
      by (simp add: canonical_codes_length canonical_codes_Suc)
    have "first_code bs si + bs si \<le> 2 ^ si"
      using valid si by (rule code_bound)
    also have "\<dots> \<le> 2 ^ NUM_HUFFMAN_LENGTHS"
      using si by (intro power_increasing) auto
    finally have "int (first_code bs si + bs si) \<le> 2 ^ 16"
      by (simp add: NUM_HUFFMAN_LENGTHS_def flip: of_nat_le_iff [where ?'a = int])
    then have "js_shl (int (first_code bs si) + int (bs si)) 1
        = (int (first_code bs si) + int (bs si)) * 2"
      by (intro js_shl_double) simp_all
    then have shl: "js_shl (int (first_code bs si) + int (bs si)) 1 = int (first_code bs (Suc si))"
      using si by (simp add: first_code_Suc)
    have ih: "code_outer (generate_huffsize bs)
       (count_below bs (Suc si), int (first_code bs (Suc si)), int (Suc si), canonical_codes bs (Suc si))
     = Inr (canonical_codes bs (Suc NUM_HUFFMAN_LENGTHS))"
      using Suc.hyps(2) si by (intro Suc.hyps(1)) simp_all
    have head: "int i' \<noteq> 0" "\<not> int i' < int si"
      using d ge by simp_all
    have "code_outer (generate_huffsize bs)
       (count_below bs si, int (first_code bs si), int si, canonical_codes bs si)
      = code_outer (generate_huffsize bs)
       (count_below bs (Suc si), js_shl (int (first_code bs si) + int (bs si)) 1, int si + 1,
        canonical_codes bs (Suc si))"
      by (subst code_outer.simps) (simp only: get head inner option.case if_False prod.case)
    also have "\<dots> = code_outer (generate_huffsize bs)
       (count_below bs (Suc si), int (first_code bs (Suc si)), int (Suc si), canonical_codes bs (Suc si))"
      by (simp only: shl) (simp add: add.commute)
    finally show ?thesis
      by (simp only: ih)
  qed
qed

lemma initDecoder_valid:
  assumes valid: "valid_table bs vals"
  shows "initDecoder bs = Inr \<lparr>bits = bs, huffval = [], huffsize = generate_huffsize bs,
            huffcode = canonical_codes bs (Suc NUM_HUFFMAN_LENGTHS)\<rparr>"
proof -
  let ?T = "count_below bs (Suc NUM_HUFFMAN_LENGTHS)"
  have "generate_huffcode (generate_huffsize bs) = Inr (canonical_codes bs (Suc NUM_HUFFMAN_LENGTHS))"
  proof (cases "?T = 0")
    case True
    then have "arr_get (generate_huffsize bs) 0 = Some 0"
      using huffsize_sentinel [of bs] by simp
    moreover have "canonical_codes bs (Suc NUM_HUFFMAN_LENGTHS) = []"
      using canonical_codes_length [of bs "Suc NUM_HUFFMAN_LENGTHS"] True by simp
    ultimately show ?thesis
      by (simp add: generate_huffcode_def) (subst code_outer.simps, simp)
  next
    case False
    then have "0 < ?T" by simp
    then obtain i m where d: "1 \<le> i" "i \<le> NUM_HUFFMAN_LENGTHS" "m < bs i" "0 = count_below bs i + m"
      using symbol_decompose by blast
    then have z: "count_below bs i = 0" by simp
    then have get: "arr_get (generate_huffsize bs) 0 = Some (int i)"
      using d huffsize_block [of i m bs] by simp
    have "canonical_codes bs i = []"
      using canonical_codes_length [of bs i] z by simp
    then have "code_outer (generate_huffsize bs) (0, 0, int i, [])
        = Inr (canonical_codes bs (Suc NUM_HUFFMAN_LENGTHS))"
      using code_outer_canonical [OF valid, of i] d z first_code_zero [OF z] by simp
    then show ?thesis
      using get by (simp add: generate_huffcode_def)
  qed
  then show ?thesis
    by (simp add: initDecoder_def bindE_def)
qed

subsection \<open>The array decoder on a codeword\<close>

lemma decoder_tables_upto:
  assumes hc: "huffcode a = canonical_codes bs (Suc NUM_HUFFMAN_LENGTHS)" and b: "bits a = bs"
  shows "1 \<le> n \<Longrightarrow> n \<le> Suc NUM_HUFFMAN_LENGTHS \<Longrightarrow>
    \<exists>mn mx vp. fold (decoder_tables_step a) [1..<n] (0, [], [], []) = (count_below bs n, mn, mx, vp)
      \<and> (\<forall>i. 1 \<le> i \<and> i < n \<longrightarrow>
            arr_get mx i = Some (if bs i = 0 then -1 else int (first_code bs i + bs i) - 1)
          \<and> (0 < bs i \<longrightarrow> arr_get mn i = Some (int (first_code bs i))
                \<and> arr_get vp i = Some (int (count_below bs i))))"
proof (induction n)
  case 0
  then show ?case by simp
next
  case (Suc n)
  show ?case
  proof (cases "1 \<le> n")
    case False
    then have "n = 0" by simp
    then show ?thesis by (simp add: count_below_def)
  next
    case True
    then obtain mn mx vp where
      f: "fold (decoder_tables_step a) [1..<n] (0, [], [], []) = (count_below bs n, mn, mx, vp)"
      and inv: "\<And>i. 1 \<le> i \<Longrightarrow> i < n \<Longrightarrow>
            arr_get mx i = Some (if bs i = 0 then -1 else int (first_code bs i + bs i) - 1)
          \<and> (0 < bs i \<longrightarrow> arr_get mn i = Some (int (first_code bs i))
                \<and> arr_get vp i = Some (int (count_below bs i)))"
      using Suc by auto
    have n: "1 \<le> n" "n < Suc NUM_HUFFMAN_LENGTHS" using True Suc.prems by simp_all
    have split: "[1..<Suc n] = [1..<n] @ [n]" using True by simp
    show ?thesis
    proof (cases "bs n = 0")
      case True
      have "fold (decoder_tables_step a) [1..<Suc n] (0, [], [], [])
          = (count_below bs (Suc n), mn, arr_set mx n (Some (-1)), vp)"
        using True n by (simp only: split fold_append comp_def f)
          (simp add: decoder_tables_step_def b count_below_Suc)
      moreover have "\<forall>i. 1 \<le> i \<and> i < Suc n \<longrightarrow>
            arr_get (arr_set mx n (Some (-1))) i
              = Some (if bs i = 0 then -1 else int (first_code bs i + bs i) - 1)
          \<and> (0 < bs i \<longrightarrow> arr_get mn i = Some (int (first_code bs i))
                \<and> arr_get vp i = Some (int (count_below bs i)))"
        using inv True by (auto simp: arr_get_set less_Suc_eq)
      ultimately show ?thesis by blast
    next
      case False
      then have pos: "0 < bs n" by simp
      have lo: "arr_get (huffcode a) (count_below bs n) = Some (int (first_code bs n))"
        using canonical_codes_nth [of n "Suc NUM_HUFFMAN_LENGTHS" 0 bs] n pos by (simp add: hc)
      have "count_below bs n + bs n - Suc 0 = count_below bs n + (bs n - 1)"
        using pos by simp
      then have hi: "arr_get (huffcode a) (count_below bs n + bs n - Suc 0)
          = Some (int (first_code bs n) + int (bs n) - 1)"
        using canonical_codes_nth [of n "Suc NUM_HUFFMAN_LENGTHS" "bs n - 1" bs] n pos
        by (simp add: hc of_nat_diff)
      have "fold (decoder_tables_step a) [1..<Suc n] (0, [], [], [])
          = (count_below bs (Suc n), arr_set mn n (Some (int (first_code bs n))),
             arr_set mx n (Some (int (first_code bs n + bs n) - 1)),
             arr_set vp n (Some (int (count_below bs n))))"
        using pos n by (simp only: split fold_append comp_def f)
          (simp add: decoder_tables_step_def b count_below_Suc lo hi Let_def)
      moreover have "\<forall>i. 1 \<le> i \<and> i < Suc n \<longrightarrow>
            arr_get (arr_set mx n (Some (int (first_code bs n + bs n) - 1))) i
              = Some (if bs i = 0 then -1 else int (first_code bs i + bs i) - 1)
          \<and> (0 < bs i \<longrightarrow>
                arr_get (arr_set mn n (Some (int (first_code bs n)))) i = Some (int (first_code bs i))
              \<and> arr_get (arr_set vp n (Some (int (count_below bs n)))) i
                  = Some (int (count_below bs i)))"
        using inv pos by (auto simp: arr_get_set less_Suc_eq)
      ultimately show ?thesis by blast
    qed
  qed
qed

lemma first_code_grows:
  "1 \<le> i \<Longrightarrow> i < L \<Longrightarrow> (first_code bs i + bs i) * 2 ^ (L - i) \<le> first_code bs L"
proof (induction L)
  case 0
  then show ?case by simp
next
  case (Suc L)
  have L: "1 \<le> L" using Suc.prems by simp
  show ?case
  proof (cases "i = L")
    case True
    then show ?thesis using L by (simp add: first_code_Suc)
  next
    case False
    then have "i < L" using Suc.prems by simp
    then have "(first_code bs i + bs i) * 2 ^ (L - i) \<le> first_code bs L"
      using Suc by simp
    then have "(first_code bs i + bs i) * 2 ^ (L - i) * 2 \<le> (first_code bs L + bs L) * 2"
      by simp
    moreover have "Suc L - i = Suc (L - i)" using \<open>i < L\<close> by simp
    ultimately show ?thesis using L by (simp add: first_code_Suc mult.assoc)
  qed
qed

lemma code_bits_length [simp]: "length (code_bits n c) = n"
  by (induction n) simp_all

lemma array_loop_codeword:
  assumes valid: "valid_table bs vals"
    and L: "1 \<le> L" "L \<le> NUM_HUFFMAN_LENGTHS" and m: "m < bs L"
    and mx: "\<And>i. 1 \<le> i \<Longrightarrow> i \<le> NUM_HUFFMAN_LENGTHS \<Longrightarrow>
            arr_get mx i = Some (if bs i = 0 then -1 else int (first_code bs i + bs i) - 1)"
  shows "1 \<le> i \<Longrightarrow> i \<le> L \<Longrightarrow>
    read_bits nb (L - i) s = Inr (code_bits (L - i) (int (first_code bs L + m)), s') \<Longrightarrow>
    array_loop nb mx i (int (first_code bs L + m) div 2 ^ (L - i)) s
      = Inr (L, int (first_code bs L + m), s')"
proof (induction "L - i" arbitrary: i s)
  case 0
  then have "i = L" by simp
  then show ?case
    using 0 mx [OF L] m by (subst array_loop.simps) auto
next
  case (Suc d)
  define c where "c = int (first_code bs L + m)"
  have i: "1 \<le> i" "i < L" "i \<le> NUM_HUFFMAN_LENGTHS" using Suc L by simp_all
  have d: "L - i = Suc d" "L - Suc i = d" using Suc by simp_all
  have cnat: "first_code bs L + m < 2 ^ L"
    using code_bound [OF valid L] m by simp
  have "(2::nat) ^ L \<le> 2 ^ NUM_HUFFMAN_LENGTHS"
    using L by (intro power_increasing) auto
  then have "first_code bs L + m < 2 ^ 16" using cnat by (simp add: NUM_HUFFMAN_LENGTHS_def)
  then have c16: "c < 2 ^ 16" "0 \<le> c" by (simp_all add: c_def)
  have grow: "(first_code bs i + bs i) * 2 ^ (L - i) \<le> first_code bs L + m"
    using first_code_grows [of i L bs] i by simp
  then have "first_code bs i + bs i \<le> (first_code bs L + m) div 2 ^ (L - i)"
    by (simp add: less_eq_div_iff_mult_less_eq)
  then have "int (first_code bs i + bs i) \<le> int ((first_code bs L + m) div 2 ^ (L - i))"
    by (simp only: of_nat_le_iff)
  then have big: "int (first_code bs i + bs i) \<le> c div 2 ^ (L - i)"
    by (simp add: c_def zdiv_int)
  have nonneg: "0 \<le> c div 2 ^ (L - i)"
    using c16 by (simp add: pos_imp_zdiv_nonneg_iff)
  have gt: "(if bs i = 0 then -1 else int (first_code bs i + bs i) - 1) < c div 2 ^ (L - i)"
    using big nonneg by auto
  have "(first_code bs L + m) div 2 ^ (L - i) \<le> first_code bs L + m"
    by (rule div_le_dividend)
  then have "int ((first_code bs L + m) div 2 ^ (L - i)) \<le> int (first_code bs L + m)"
    by (simp only: of_nat_le_iff)
  then have le: "c div 2 ^ (L - i) \<le> c"
    by (simp add: c_def zdiv_int)
  obtain s1 where nb: "nb s = Inr ((c div 2 ^ d) mod 2, s1)"
    and rest: "read_bits nb d s1 = Inr (code_bits d c, s')"
    using Suc.prems(3) unfolding d c_def [symmetric]
    by (auto split: sum.splits prod.splits)
  have shl: "js_shl (c div 2 ^ Suc d) 1 = (c div 2 ^ Suc d) * 2"
    using nonneg le c16 unfolding d by (intro js_shl_double) auto
  have "c div 2 ^ d = (c div 2 ^ d div 2) * 2 + (c div 2 ^ d) mod 2"
    by simp
  also have "c div 2 ^ d div 2 = c div 2 ^ Suc d"
  proof -
    have "c div 2 ^ Suc d = c div (2 ^ d * 2)" by (simp add: mult.commute)
    also have "\<dots> = c div 2 ^ d div 2" by (rule zdiv_zmult2_eq) simp
    finally show ?thesis by simp
  qed
  finally have comb: "js_shl (c div 2 ^ Suc d) 1 + (c div 2 ^ d) mod 2 = c div 2 ^ d"
    by (simp only: shl)
  have ih: "array_loop nb mx (Suc i) (c div 2 ^ d) s1 = Inr (L, c, s')"
    using Suc.hyps(1) [of "Suc i" s1] i rest by (simp add: d c_def)
  define M where "M = (if bs i = 0 then -1 else int (first_code bs i + bs i) - 1)"
  have mxi: "arr_get mx i = Some M"
    unfolding M_def by (rule mx [OF i(1) i(3)])
  have gt': "M < c div 2 ^ Suc d"
    using gt unfolding M_def d .
  have "array_loop nb mx i (c div 2 ^ Suc d) s
      = array_loop nb mx (Suc i) (js_shl (c div 2 ^ Suc d) 1 + (c div 2 ^ d) mod 2) s1"
    by (subst array_loop.simps)
       (simp only: mxi option.case gt' if_True nb sum.case prod.case)
  then show ?case
    unfolding c_def [symmetric] d by (simp only: comb ih)
qed

lemma code_lengths_length: "length (code_lengths bs) = count_below bs (Suc NUM_HUFFMAN_LENGTHS)"
  by (simp add: code_lengths_def length_concat comp_def count_below_def)

lemma fold_array_insertCode:
  "fold (\<lambda>(l, v) a. snd (array_insertCode l v a)) xs a
     = a\<lparr>huffval := huffval a @ map (\<lambda>x. Some (snd x)) xs\<rparr>"
  by (induction xs arbitrary: a) (auto simp: array_insertCode_def)

lemma valid_length: "valid_table bs vals \<Longrightarrow> length vals = count_below bs (Suc NUM_HUFFMAN_LENGTHS)"
  by (simp add: valid_table_def count_below_def)

lemma array_table_valid:
  assumes valid: "valid_table bs vals"
  shows "array_table bs vals = Inr \<lparr>bits = bs, huffval = map Some vals,
            huffsize = generate_huffsize bs,
            huffcode = canonical_codes bs (Suc NUM_HUFFMAN_LENGTHS)\<rparr>"
proof -
  have "length (code_lengths bs) = length vals"
    using valid by (simp add: code_lengths_length valid_length)
  then have "map snd (zip (code_lengths bs) vals) = vals"
    by simp
  moreover have "map (\<lambda>x. Some (snd x)) (zip (code_lengths bs) vals)
      = map Some (map snd (zip (code_lengths bs) vals))"
    by (simp add: comp_def)
  ultimately have "map (\<lambda>x. Some (snd x)) (zip (code_lengths bs) vals) = map Some vals"
    by (simp only:)
  then show ?thesis
    by (simp add: array_table_def initDecoder_valid [OF valid] bindE_def fold_array_insertCode)
qed

lemma codeword_canonical:
  assumes valid: "valid_table bs vals" and L: "1 \<le> L" "L \<le> NUM_HUFFMAN_LENGTHS" and m: "m < bs L"
  shows "codeword bs (count_below bs L + m) = code_bits L (int (first_code bs L + m))"
  using huffsize_block [of L m bs] canonical_codes_nth [of L "Suc NUM_HUFFMAN_LENGTHS" m bs] L m
  by (simp add: codeword_def initDecoder_valid [OF valid])

lemma read_bits_Cons:
  "read_bits nb (Suc n) s = Inr (b # bs, s') \<Longrightarrow>
   \<exists>s0. nb s = Inr (b, s0) \<and> read_bits nb n s0 = Inr (bs, s')"
  by (auto split: sum.splits prod.splits)

lemma top_bit:
  assumes "(c::nat) < 2 ^ Suc d"
  shows "(int c div 2 ^ d) mod 2 = int c div 2 ^ d"
proof -
  have "c < 2 ^ d * 2" using assms by simp
  then have "c div 2 ^ d < 2"
    by (simp add: less_mult_imp_div_less)
  then have "int (c div 2 ^ d) < 2" by simp
  then have "int c div 2 ^ d < 2" by (simp add: zdiv_int)
  moreover have "0 \<le> int (c div 2 ^ d)" by simp
  then have "0 \<le> int c div 2 ^ d" by (simp add: zdiv_int)
  ultimately show ?thesis by simp
qed

lemma array_decode_codeword:
  assumes valid: "valid_table bs vals" and L: "1 \<le> L" "L \<le> NUM_HUFFMAN_LENGTHS" and m: "m < bs L"
    and A: "array_table bs vals = Inr A"
    and rd: "read_bits nb L s = Inr (code_bits L (int (first_code bs L + m)), s')"
  shows "array_decodeHuffman nb A s = Inr (Some (vals ! (count_below bs L + m)), s')"
proof -
  define c where "c = int (first_code bs L + m)"
  have Aeq: "A = \<lparr>bits = bs, huffval = map Some vals, huffsize = generate_huffsize bs,
            huffcode = canonical_codes bs (Suc NUM_HUFFMAN_LENGTHS)\<rparr>"
    using A array_table_valid [OF valid] by simp
  have hcA: "huffcode A = canonical_codes bs (Suc NUM_HUFFMAN_LENGTHS)" and bA: "bits A = bs"
    by (simp_all add: Aeq)
  have "\<exists>mn mx vp. decoder_tables A = (count_below bs (Suc NUM_HUFFMAN_LENGTHS), mn, mx, vp)
      \<and> (\<forall>i. 1 \<le> i \<and> i < Suc NUM_HUFFMAN_LENGTHS \<longrightarrow>
            arr_get mx i = Some (if bs i = 0 then -1 else int (first_code bs i + bs i) - 1)
          \<and> (0 < bs i \<longrightarrow> arr_get mn i = Some (int (first_code bs i))
                \<and> arr_get vp i = Some (int (count_below bs i))))"
    unfolding decoder_tables_def
    by (rule decoder_tables_upto [OF hcA bA]) simp_all
  then obtain mn mx vp where
    tab: "decoder_tables A = (count_below bs (Suc NUM_HUFFMAN_LENGTHS), mn, mx, vp)"
    and inv: "\<forall>i. 1 \<le> i \<and> i < Suc NUM_HUFFMAN_LENGTHS \<longrightarrow>
            arr_get mx i = Some (if bs i = 0 then -1 else int (first_code bs i + bs i) - 1)
          \<and> (0 < bs i \<longrightarrow> arr_get mn i = Some (int (first_code bs i))
                \<and> arr_get vp i = Some (int (count_below bs i)))"
    by blast
  have mx: "\<And>i. 1 \<le> i \<Longrightarrow> i \<le> NUM_HUFFMAN_LENGTHS \<Longrightarrow>
            arr_get mx i = Some (if bs i = 0 then -1 else int (first_code bs i + bs i) - 1)"
    using inv by simp
  have tabL: "arr_get mn L = Some (int (first_code bs L))" "arr_get vp L = Some (int (count_below bs L))"
    using inv L m by simp_all
  obtain d where d: "L = Suc d" using L by (cases L) simp_all
  have cnat: "first_code bs L + m < 2 ^ Suc d"
    using code_bound [OF valid L] m unfolding d by simp
  have top: "(c div 2 ^ d) mod 2 = c div 2 ^ d"
    unfolding c_def by (rule top_bit [OF cnat])
  have "read_bits nb L s = Inr (code_bits L c, s')"
    using rd by (simp only: c_def)
  then have "read_bits nb (Suc d) s = Inr (code_bits (Suc d) c, s')"
    by (simp only: d)
  then have rd': "read_bits nb (Suc d) s = Inr (c div 2 ^ d # code_bits d c, s')"
    by (simp only: code_bits.simps top)
  obtain s0 where nb: "nb s = Inr (c div 2 ^ d, s0)"
    and rest: "read_bits nb d s0 = Inr (code_bits d c, s')"
    using read_bits_Cons [OF rd'] by blast
  have Ld: "L - 1 = d" by (simp add: d)
  have "array_loop nb mx 1 (int (first_code bs L + m) div 2 ^ (L - 1)) s0
      = Inr (L, int (first_code bs L + m), s')"
  proof (rule array_loop_codeword [OF valid L m mx])
    show "1 \<le> (1::nat)" by simp
    show "1 \<le> L" by (rule L)
    show "read_bits nb (L - 1) s0 = Inr (code_bits (L - 1) (int (first_code bs L + m)), s')"
      using rest by (simp only: Ld c_def)
  qed
  then have loop: "array_loop nb mx 1 (c div 2 ^ d) s0 = Inr (L, c, s')"
    by (simp only: Ld c_def)
  have k: "count_below bs L + m < length vals"
  proof -
    have "count_below bs L + m < count_below bs (Suc L)" using L m by (simp add: count_below_Suc)
    also have "\<dots> \<le> count_below bs (Suc NUM_HUFFMAN_LENGTHS)"
      using L by (intro count_below_mono) simp
    finally show ?thesis using valid by (simp add: valid_length)
  qed
  have j: "int (count_below bs L) + (c - int (first_code bs L)) = int (count_below bs L + m)"
    by (simp add: c_def)
  have jn: "nat (int (count_below bs L + m)) = count_below bs L + m" "0 \<le> int (count_below bs L + m)"
    by simp_all
  have val: "arr_get (huffval A) (count_below bs L + m) = Some (vals ! (count_below bs L + m))"
    using k by (simp add: Aeq arr_get_def)
  have "array_decodeHuffman nb A s =
      Inr (case (arr_get vp L, arr_get mn L) of
                 (Some p, Some m) \<Rightarrow>
                   (let j = p + (c - m) in if 0 \<le> j then arr_get (huffval A) (nat j) else None)
               | _ \<Rightarrow> None, s')"
    unfolding array_decodeHuffman_def tab
    by (simp only: prod.case nb bindE_def sum.case loop)
  also have "\<dots> = Inr (Some (vals ! (count_below bs L + m)), s')"
    by (simp only: tabL prod.case option.case Let_def j jn if_True val)
  finally show ?thesis .
qed

subsection \<open>The tree filled in canonical order\<close>

lemma used_le: "packed L t \<Longrightarrow> used L t \<le> 2 ^ (L - level t)"
proof (induction t)
  case (NoKids l d)
  then show ?case by simp
next
  case (Kids l d lt rt)
  then have "used L lt \<le> 2 ^ (L - Suc l)" "used L rt \<le> 2 ^ (L - Suc l)" by simp_all
  moreover have "l < L" using Kids.prems by simp
  then have "L - l = Suc (L - Suc l)" by arith
  ultimately show ?case by simp
qed

lemma packed_mono:
  "packed L t \<Longrightarrow> L \<le> L' \<Longrightarrow> packed L' t \<and> used L' t = used L t * 2 ^ (L' - L)"
proof (induction t)
  case (NoKids l d)
  then have "L' - l = (L - l) + (L' - L)" by simp
  then have "(2::nat) ^ (L' - l) = 2 ^ (L - l) * 2 ^ (L' - L)" by (simp only: power_add)
  then show ?case using NoKids by simp
next
  case (Kids l d lt rt)
  then have l: "packed L' lt" "used L' lt = used L lt * 2 ^ (L' - L)"
    and r: "packed L' rt" "used L' rt = used L rt * 2 ^ (L' - L)"
    by simp_all
  have "l < L" using Kids.prems by simp
  then have "L' - Suc l = (L - Suc l) + (L' - L)" using Kids.prems by arith
  then have e: "(2::nat) ^ (L' - Suc l) = 2 ^ (L - Suc l) * 2 ^ (L' - L)" by (simp only: power_add)
  have "0 < used L' rt \<longrightarrow> used L' lt = 2 ^ (L' - Suc l)"
    using Kids.prems by (simp add: l r e)
  then show ?case
    using Kids.prems l r by (simp add: add_mult_distrib)
qed

lemma insertCode_full:
  "packed L t \<Longrightarrow> used L t = 2 ^ (L - level t) \<Longrightarrow> insertCode L v t = Inr (False, t)"
proof (induction t)
  case (NoKids l d)
  then show ?case by (subst insertCode.simps) (auto split: if_splits)
next
  case (Kids l d lt rt)
  have p: "d = None" "l < L" "level lt = Suc l" "level rt = Suc l" "packed L lt" "packed L rt"
    using Kids.prems by simp_all
  have e: "L - l = Suc (L - Suc l)" using p by arith
  have "used L lt \<le> 2 ^ (L - Suc l)" "used L rt \<le> 2 ^ (L - Suc l)"
    using used_le [OF p(5)] used_le [OF p(6)] p by simp_all
  moreover have "used L lt + used L rt = 2 * 2 ^ (L - Suc l)"
    using Kids.prems(2) by (simp add: e)
  ultimately have "used L lt = 2 ^ (L - Suc l)" "used L rt = 2 ^ (L - Suc l)"
    by arith+
  then have "insertCode L v lt = Inr (False, lt)" "insertCode L v rt = Inr (False, rt)"
    using Kids.IH p by simp_all
  then show ?case
    using p by (subst insertCode.simps) (simp add: bindE_def)
qed

lemma code_bits_zero: "code_bits (Suc n) 0 = 0 # code_bits n 0"
  by simp

lemma insertCode_fresh:
  "l \<le> L \<Longrightarrow>
   \<exists>t'. insertCode L v (NoKids l None) = Inr (True, t') \<and> packed L t' \<and> level t' = l
      \<and> used L t' = 1 \<and> lookup t' (code_bits (L - l) 0) = Some v
      \<and> (l < L \<longrightarrow> data t' = None)"
proof (induction "L - l" arbitrary: l)
  case 0
  then have "l = L" by simp
  then show ?case by (subst insertCode.simps) simp
next
  case (Suc n)
  then have l: "l < L" "Suc l \<le> L" "n = L - Suc l" by simp_all
  obtain t1 where t1: "insertCode L v (NoKids (Suc l) None) = Inr (True, t1)" "packed L t1"
    "level t1 = Suc l" "used L t1 = 1" "lookup t1 (code_bits (L - Suc l) 0) = Some v"
    using Suc.hyps(1) [OF l(3) l(2)] by blast
  have e: "L - l = Suc (L - Suc l)" using l by simp
  have ins: "insertCode L v (NoKids l None) = Inr (True, Kids l None t1 (NoKids (Suc l) None))"
    using l t1 by (subst insertCode.simps) (simp add: bindE_def newHuffTree_def)
  show ?case
    using l t1 by (simp only: ins e code_bits_zero) simp
qed

lemma code_bits_low:
  assumes "0 \<le> u" "u < 2 ^ n"
  shows "code_bits (Suc n) u = 0 # code_bits n u"
  using assms by simp

lemma code_bits_shift: "n \<le> k \<Longrightarrow> code_bits n (c + 2 ^ k * q) = code_bits n c"
proof (induction n)
  case 0
  then show ?case by simp
next
  case (Suc n)
  then have "k = n + (k - n)" "0 < k - n" by simp_all
  then obtain j where j: "k = n + Suc j" by (metis Suc_pred)
  have "(c + 2 ^ k * q) div 2 ^ n = c div 2 ^ n + 2 * (2 ^ j * q)"
  proof -
    have "c + 2 ^ k * q = c + 2 ^ n * (2 * (2 ^ j * q))"
      by (simp add: j power_add)
    also have "\<dots> div 2 ^ n = c div 2 ^ n + 2 * (2 ^ j * q)"
      by (subst div_mult_self2) simp_all
    finally show ?thesis .
  qed
  then have "(c + 2 ^ k * q) div 2 ^ n mod 2 = c div 2 ^ n mod 2"
    by simp
  then show ?case using Suc by simp
qed

lemma code_bits_high:
  assumes "0 \<le> u" "u < 2 ^ n"
  shows "code_bits (Suc n) (2 ^ n + u) = 1 # code_bits n u"
proof -
  have "(2 ^ n + u) div 2 ^ n = 1"
    using assms by (simp add: div_pos_pos_trivial)
  moreover have "code_bits n (u + 2 ^ n * 1) = code_bits n u"
    by (rule code_bits_shift) simp
  ultimately show ?thesis by (simp add: add.commute)
qed

lemma lookup_NoKids_None: "lookup (NoKids l None) p = Some w \<Longrightarrow> False"
  by (cases p) simp_all

lemma insertCode_ok:
  "packed L t \<Longrightarrow> used L t < 2 ^ (L - level t) \<Longrightarrow>
   \<exists>t'. insertCode L v t = Inr (True, t') \<and> packed L t' \<and> level t' = level t
      \<and> used L t' = Suc (used L t)
      \<and> lookup t' (code_bits (L - level t) (int (used L t))) = Some v
      \<and> (\<forall>p w. lookup t p = Some w \<longrightarrow> lookup t' p = Some w)
      \<and> (level t < L \<longrightarrow> data t' = None)"
proof (induction t)
  case (NoKids l d)
  then have d: "d = None" and l: "l \<le> L" by (auto split: if_splits)
  obtain t' where t': "insertCode L v (NoKids l None) = Inr (True, t')" "packed L t'" "level t' = l"
      "used L t' = 1" "lookup t' (code_bits (L - l) 0) = Some v" "l < L \<longrightarrow> data t' = None"
    using insertCode_fresh [OF l, where v = v] by blast
  have "\<forall>p w. lookup (NoKids l d) p = Some w \<longrightarrow> lookup t' p = Some w"
  proof (intro allI impI)
    fix p w assume "lookup (NoKids l d) p = Some w"
    then have False unfolding d by (rule lookup_NoKids_None)
    then show "lookup t' p = Some w" ..
  qed
  then show ?case
    using t' d by (intro exI [of _ t']) simp
next
  case (Kids l d lt rt)
  have p: "d = None" "l < L" "level lt = Suc l" "level rt = Suc l" "packed L lt" "packed L rt"
      "0 < used L rt \<longrightarrow> used L lt = 2 ^ (L - Suc l)"
    using Kids.prems by simp_all
  have e: "L - l = Suc (L - Suc l)" using p by arith
  have ule: "used L lt \<le> 2 ^ (L - Suc l)" "used L rt \<le> 2 ^ (L - Suc l)"
    using used_le [OF p(5)] used_le [OF p(6)] p by simp_all
  have tot: "used L lt + used L rt < 2 * 2 ^ (L - Suc l)"
    using Kids.prems(2) by (simp add: e)
  show ?case
  proof (cases "used L lt < 2 ^ (L - Suc l)")
    case True
    then have r0: "used L rt = 0" using p(7) by auto
    obtain lt' where lt': "insertCode L v lt = Inr (True, lt')" "packed L lt'" "level lt' = Suc l"
        "used L lt' = Suc (used L lt)"
        "lookup lt' (code_bits (L - Suc l) (int (used L lt))) = Some v"
        "\<forall>p w. lookup lt p = Some w \<longrightarrow> lookup lt' p = Some w"
      using Kids.IH(1) [OF p(5)] True p(3) by auto
    have ins: "insertCode L v (Kids l d lt rt) = Inr (True, Kids l d lt' rt)"
      using p lt' by (subst insertCode.simps) (simp add: bindE_def)
    have bits: "code_bits (L - l) (int (used L lt + used L rt))
        = 0 # code_bits (L - Suc l) (int (used L lt))"
    proof -
      have "int (used L lt) < int (2 ^ (L - Suc l))" using True by (simp only: of_nat_less_iff)
      then have "int (used L lt) < 2 ^ (L - Suc l)" by simp
      then show ?thesis
        unfolding e r0 by (simp only: add_0_right) (intro code_bits_low, simp_all)
    qed
    have pres: "\<forall>q w. lookup (Kids l d lt rt) q = Some w \<longrightarrow> lookup (Kids l d lt' rt) q = Some w"
    proof (intro allI impI)
      fix q w assume a: "lookup (Kids l d lt rt) q = Some w"
      show "lookup (Kids l d lt' rt) q = Some w"
      proof (cases q)
        case Nil
        then show ?thesis using a by simp
      next
        case (Cons b q')
        then show ?thesis using a lt'(6) p(1) by (auto split: if_splits)
      qed
    qed
    have c2: "packed L (Kids l d lt' rt)" using p lt' r0 by simp
    have c3: "level (Kids l d lt' rt) = level (Kids l d lt rt)" by simp
    have c4: "used L (Kids l d lt' rt) = Suc (used L (Kids l d lt rt))" using lt' by simp
    have c5: "lookup (Kids l d lt' rt)
        (code_bits (L - level (Kids l d lt rt)) (int (used L (Kids l d lt rt)))) = Some v"
      using lt'(5) p(1) by (simp only: used.simps level.simps bits) simp
    have c7: "level (Kids l d lt rt) < L \<longrightarrow> data (Kids l d lt' rt) = None"
      using p by simp
    show ?thesis
      using ins c2 c3 c4 c5 pres c7 by blast
  next
    case False
    then have full: "used L lt = 2 ^ (L - Suc l)" using ule by simp
    then have rlt: "used L rt < 2 ^ (L - Suc l)" using tot by simp
    have insl: "insertCode L v lt = Inr (False, lt)"
      using insertCode_full [OF p(5)] full p(3) by simp
    obtain rt' where rt': "insertCode L v rt = Inr (True, rt')" "packed L rt'" "level rt' = Suc l"
        "used L rt' = Suc (used L rt)"
        "lookup rt' (code_bits (L - Suc l) (int (used L rt))) = Some v"
        "\<forall>p w. lookup rt p = Some w \<longrightarrow> lookup rt' p = Some w"
      using Kids.IH(2) [OF p(6)] rlt p(4) by auto
    have ins: "insertCode L v (Kids l d lt rt) = Inr (True, Kids l d lt rt')"
      using p insl rt' by (subst insertCode.simps) (simp add: bindE_def)
    have bits: "code_bits (L - l) (int (used L lt + used L rt))
        = 1 # code_bits (L - Suc l) (int (used L rt))"
    proof -
      have "int (used L rt) < int (2 ^ (L - Suc l))" using rlt by (simp only: of_nat_less_iff)
      then have "int (used L rt) < 2 ^ (L - Suc l)" by simp
      then have "code_bits (Suc (L - Suc l)) (2 ^ (L - Suc l) + int (used L rt))
          = 1 # code_bits (L - Suc l) (int (used L rt))"
        by (intro code_bits_high) simp_all
      then show ?thesis
        unfolding e full by simp
    qed
    have pres: "\<forall>q w. lookup (Kids l d lt rt) q = Some w \<longrightarrow> lookup (Kids l d lt rt') q = Some w"
    proof (intro allI impI)
      fix q w assume a: "lookup (Kids l d lt rt) q = Some w"
      show "lookup (Kids l d lt rt') q = Some w"
      proof (cases q)
        case Nil
        then show ?thesis using a by simp
      next
        case (Cons b q')
        then show ?thesis using a rt'(6) p(1) by (auto split: if_splits)
      qed
    qed
    have c2: "packed L (Kids l d lt rt')" using p rt' full by simp
    have c3: "level (Kids l d lt rt') = level (Kids l d lt rt)" by simp
    have c4: "used L (Kids l d lt rt') = Suc (used L (Kids l d lt rt))" using rt' by simp
    have c5: "lookup (Kids l d lt rt')
        (code_bits (L - level (Kids l d lt rt)) (int (used L (Kids l d lt rt)))) = Some v"
      using rt'(5) p(1) by (simp only: used.simps level.simps bits) simp
    have c7: "level (Kids l d lt rt) < L \<longrightarrow> data (Kids l d lt rt') = None"
      using p by simp
    show ?thesis
      using ins c2 c3 c4 c5 pres c7 by blast
  qed
qed

lemma lookup_data_stop: "lookup n p = Some v \<Longrightarrow> data n \<noteq> None \<Longrightarrow> p = [] \<and> data n = Some v"
  by (cases n; cases p) auto

lemma tree_decode_lookup:
  "data t = None \<Longrightarrow> lookup t p = Some v \<Longrightarrow> read_bits nb (length p) s = Inr (p, s') \<Longrightarrow>
   tree_decodeHuffman nb t s = Inr (Some v, s')"
proof (induction p arbitrary: t s)
  case Nil
  then show ?case by simp
next
  case (Cons b p)
  obtain l lt rt where t: "t = Kids l None lt rt"
    using Cons.prems(1,2) by (cases t) auto
  obtain s0 where nb: "nb s = Inr (b, s0)" and rest: "read_bits nb (length p) s0 = Inr (p, s')"
    using Cons.prems(3) read_bits_Cons [of nb "length p" s b p s'] by auto
  have b01: "b = 0 \<or> b = 1"
    using Cons.prems(2) t by (auto split: if_splits)
  define n where "n = (if b = 0 then lt else rt)"
  have desc: "descendNode t b = Some n"
    using b01 by (auto simp: t n_def)
  have lk: "lookup n p = Some v"
    using Cons.prems(2) b01 by (auto simp: t n_def)
  show ?case
  proof (cases "data n = None")
    case True
    then have "tree_decodeHuffman nb n s0 = Inr (Some v, s')"
      using Cons.IH lk rest by simp
    then show ?thesis
      using True by (subst tree_decodeHuffman.simps) (simp add: nb desc)
  next
    case False
    then have "p = []" "data n = Some v"
      using lookup_data_stop [OF lk] by simp_all
    then show ?thesis
      using rest by (subst tree_decodeHuffman.simps) (simp add: nb desc)
  qed
qed

lemma first_code_stable:
  "1 \<le> i \<Longrightarrow> i \<le> j \<Longrightarrow> count_below bs i = count_below bs j \<Longrightarrow>
   first_code bs j = first_code bs i * 2 ^ (j - i)"
proof (induction j)
  case 0
  then show ?case by simp
next
  case (Suc j)
  show ?case
  proof (cases "i = Suc j")
    case True
    then show ?thesis by simp
  next
    case False
    then have ij: "i \<le> j" "1 \<le> j" using Suc.prems by simp_all
    have "count_below bs i \<le> count_below bs j" using ij by (intro count_below_mono)
    then have z: "bs j = 0" "count_below bs i = count_below bs j"
      using Suc.prems ij by (simp_all add: count_below_Suc)
    have "Suc j - i = Suc (j - i)" using ij by simp
    then show ?thesis
      using Suc.IH [OF Suc.prems(1) ij(1) z(2)] ij z by (simp add: first_code_Suc)
  qed
qed

lemma code_lengths_nth:
  assumes "1 \<le> i" "i \<le> NUM_HUFFMAN_LENGTHS" "m < bs i"
  shows "code_lengths bs ! (count_below bs i + m) = i"
proof -
  have "code_lengths bs = concat (map (\<lambda>i. map (\<lambda>m. i) [0..<bs i]) [1..<Suc NUM_HUFFMAN_LENGTHS])"
    by (simp only: code_lengths_def map_replicate_trivial)
  then show ?thesis
    unfolding count_below_def using assms by (simp only:) (intro blocks_nth, simp_all)
qed

lemma tree_insert_all_append:
  "tree_insert_all (xs @ ys) t = bindE (tree_insert_all xs t) (tree_insert_all ys)"
  by (induction xs arbitrary: t) (auto simp: bindE_def split: sum.splits)

lemma filled_0: "filled bs vals 0 (newHuffTree 0)"
  by (auto simp: filled_def newHuffTree_def first_code_zero)

lemma filled_step:
  assumes valid: "valid_table bs vals" and k: "k < length vals" and f: "filled bs vals k t"
  shows "\<exists>t'. insertCode (code_lengths bs ! k) (vals ! k) t = Inr (True, t')
      \<and> filled bs vals (Suc k) t'"
proof -
  have "k < count_below bs (Suc NUM_HUFFMAN_LENGTHS)"
    using k valid by (simp add: valid_length)
  then obtain i m where d: "1 \<le> i" "i \<le> NUM_HUFFMAN_LENGTHS" "m < bs i" "k = count_below bs i + m"
    using symbol_decompose by blast
  have len: "code_lengths bs ! k = i"
    unfolding d(4) using d(1-3) by (rule code_lengths_nth)
  have cw: "codeword bs k = code_bits i (int (first_code bs i + m))"
    unfolding d(4) using valid d(1-3) by (rule codeword_canonical)
  have lv: "level t = 0" and look: "\<forall>j. j < k \<longrightarrow> lookup t (codeword bs j) = Some (vals ! j)"
    and sh: "\<forall>i m. 1 \<le> i \<and> i \<le> NUM_HUFFMAN_LENGTHS \<and> m \<le> bs i \<and> k = count_below bs i + m
            \<longrightarrow> packed i t \<and> used i t = first_code bs i + m"
    using f unfolding filled_def by blast+
  have "1 \<le> i \<and> i \<le> NUM_HUFFMAN_LENGTHS \<and> m \<le> bs i \<and> k = count_below bs i + m"
    using d by simp
  then have "packed i t \<and> used i t = first_code bs i + m"
    using sh by blast
  then have pk: "packed i t" and us: "used i t = first_code bs i + m"
    by simp_all
  have "first_code bs i + bs i \<le> 2 ^ i"
    using valid d(1,2) by (rule code_bound)
  then have room: "used i t < 2 ^ (i - level t)"
    using d(3) by (simp add: us lv)
  obtain t' where t': "insertCode i (vals ! k) t = Inr (True, t')" "packed i t'" "level t' = level t"
      "used i t' = Suc (used i t)"
      "lookup t' (code_bits (i - level t) (int (used i t))) = Some (vals ! k)"
      "\<forall>p w. lookup t p = Some w \<longrightarrow> lookup t' p = Some w"
      "level t < i \<longrightarrow> data t' = None"
    using insertCode_ok [OF pk room, of "vals ! k"] by blast
  have new: "lookup t' (codeword bs k) = Some (vals ! k)"
    using t'(5) by (simp only: cw us lv diff_zero)
  have looks: "\<forall>j. j < Suc k \<longrightarrow> lookup t' (codeword bs j) = Some (vals ! j)"
    using look t'(6) new by (auto simp: less_Suc_eq)
  have shape: "\<forall>i' m'. 1 \<le> i' \<and> i' \<le> NUM_HUFFMAN_LENGTHS \<and> m' \<le> bs i' \<and> Suc k = count_below bs i' + m'
            \<longrightarrow> packed i' t' \<and> used i' t' = first_code bs i' + m'"
  proof (intro allI impI)
    fix i' m'
    assume a: "1 \<le> i' \<and> i' \<le> NUM_HUFFMAN_LENGTHS \<and> m' \<le> bs i' \<and> Suc k = count_below bs i' + m'"
    have ge: "i \<le> i'"
    proof (rule ccontr)
      assume "\<not> i \<le> i'"
      then have "Suc i' \<le> i" by simp
      then have "count_below bs (Suc i') \<le> count_below bs i" by (rule count_below_mono)
      then show False using a d by (simp add: count_below_Suc)
    qed
    have mono: "packed i' t'" "used i' t' = used i t' * 2 ^ (i' - i)"
      using packed_mono [OF t'(2) ge] by simp_all
    show "packed i' t' \<and> used i' t' = first_code bs i' + m'"
    proof (cases "i' = i")
      case True
      then have "m' = Suc m" using a d by simp
      then show ?thesis using mono True t'(4) us by simp
    next
      case False
      then have lt: "Suc i \<le> i'" using ge by simp
      have "count_below bs (Suc i) \<le> count_below bs i'" using lt by (rule count_below_mono)
      then have e: "m' = 0" "bs i = Suc m" "count_below bs (Suc i) = count_below bs i'"
        using a d by (simp_all add: count_below_Suc)
      have "first_code bs i' = first_code bs (Suc i) * 2 ^ (i' - Suc i)"
        using lt e by (intro first_code_stable) simp_all
      also have "\<dots> = (first_code bs i + Suc m) * 2 * 2 ^ (i' - Suc i)"
        using d e by (simp add: first_code_Suc)
      also have "\<dots> = (first_code bs i + Suc m) * 2 ^ (i' - i)"
      proof -
        have "i' - i = Suc (i' - Suc i)" using lt by simp
        then show ?thesis by (simp add: mult.assoc)
      qed
      finally show ?thesis
        using mono t'(4) us e by simp
    qed
  qed
  have lv': "level t' = 0" using t'(3) lv by simp
  have dt': "data t' = None" using t'(7) lv d(1) by simp
  have "filled bs vals (Suc k) t'"
    unfolding filled_def using lv' dt' shape looks by blast
  then show ?thesis
    using t'(1) len by blast
qed

lemma tree_insert_take:
  assumes valid: "valid_table bs vals"
  shows "k \<le> length vals \<Longrightarrow>
    \<exists>t. tree_insert_all (take k (zip (code_lengths bs) vals)) (newHuffTree 0) = Inr t
       \<and> filled bs vals k t"
proof (induction k)
  case 0
  then show ?case using filled_0 by simp
next
  case (Suc k)
  then obtain t where t: "tree_insert_all (take k (zip (code_lengths bs) vals)) (newHuffTree 0) = Inr t"
      "filled bs vals k t"
    by auto
  have k: "k < length vals" using Suc.prems by simp
  obtain t' where t': "insertCode (code_lengths bs ! k) (vals ! k) t = Inr (True, t')"
      "filled bs vals (Suc k) t'"
    using filled_step [OF valid k t(2)] by blast
  have len: "length (code_lengths bs) = length vals"
    using valid by (simp add: code_lengths_length valid_length)
  then have "take (Suc k) (zip (code_lengths bs) vals)
      = take k (zip (code_lengths bs) vals) @ [(code_lengths bs ! k, vals ! k)]"
    using k by (simp add: take_Suc_conv_app_nth)
  then have "tree_insert_all (take (Suc k) (zip (code_lengths bs) vals)) (newHuffTree 0) = Inr t'"
    using t(1) t'(1) by (simp add: tree_insert_all_append bindE_def)
  then show ?case using t'(2) by blast
qed

lemma tree_table_valid:
  assumes valid: "valid_table bs vals"
  shows "\<exists>t. tree_table bs vals = Inr t \<and> filled bs vals (length vals) t"
proof -
  have "length (zip (code_lengths bs) vals) = length vals"
    using valid by (simp add: code_lengths_length valid_length)
  then have "take (length vals) (zip (code_lengths bs) vals) = zip (code_lengths bs) vals"
    by simp
  then show ?thesis
    using tree_insert_take [OF valid, of "length vals"] by (simp add: tree_table_def)
qed

lemma tree_decode_codeword:
  assumes "filled bs vals (length vals) t" "k < length vals"
    and "read_bits nb (length (codeword bs k)) s = Inr (codeword bs k, s')"
  shows "tree_decodeHuffman nb t s = Inr (Some (vals ! k), s')"
  using assms by (intro tree_decode_lookup) (simp_all add: filled_def)

subsection \<open>Sequences of codewords\<close>

lemma read_bits_append:
  "read_bits nb (length (xs @ ys)) s = Inr (xs @ ys, s') \<Longrightarrow>
   \<exists>s1. read_bits nb (length xs) s = Inr (xs, s1) \<and> read_bits nb (length ys) s1 = Inr (ys, s')"
proof (induction xs arbitrary: s)
  case Nil
  then show ?case by simp
next
  case (Cons x xs)
  then have r: "read_bits nb (Suc (length (xs @ ys))) s = Inr (x # (xs @ ys), s')" by simp
  obtain s0 where s0: "nb s = Inr (x, s0)" "read_bits nb (length (xs @ ys)) s0 = Inr (xs @ ys, s')"
    using read_bits_Cons [OF r] by blast
  obtain s1 where "read_bits nb (length xs) s0 = Inr (xs, s1)"
      "read_bits nb (length ys) s1 = Inr (ys, s')"
    using Cons.IH [OF s0(2)] by blast
  then show ?case using s0 by simp
qed

lemma decode_seq_codewords:
  assumes one: "\<And>k s s'. k < n \<Longrightarrow> read_bits nb (length (cw k)) s = Inr (cw k, s') \<Longrightarrow>
      dec s = Inr (Some (vals ! k), s')"
  shows "list_all (\<lambda>k. k < n) ks \<Longrightarrow>
    read_bits nb (length (concat (map cw ks))) s = Inr (concat (map cw ks), s') \<Longrightarrow>
    decode_seq dec (length ks) s = Inr (map (\<lambda>k. Some (vals ! k)) ks, s')"
proof (induction ks arbitrary: s)
  case Nil
  then show ?case by simp
next
  case (Cons k ks)
  have r: "read_bits nb (length (cw k @ concat (map cw ks))) s = Inr (cw k @ concat (map cw ks), s')"
    using Cons.prems(2) by simp
  obtain s1 where s1: "read_bits nb (length (cw k)) s = Inr (cw k, s1)"
      "read_bits nb (length (concat (map cw ks))) s1 = Inr (concat (map cw ks), s')"
    using read_bits_append [OF r] by blast
  have "dec s = Inr (Some (vals ! k), s1)"
    using Cons.prems(1) s1(1) by (intro one) simp_all
  moreover have "decode_seq dec (length ks) s1 = Inr (map (\<lambda>k. Some (vals ! k)) ks, s')"
    using Cons.prems(1) s1(2) by (intro Cons.IH) simp_all
  ultimately show ?case by simp
qed

lemma array_decode_any:
  assumes valid: "valid_table bs vals" and A: "array_table bs vals = Inr A" and k: "k < length vals"
    and rd: "read_bits nb (length (codeword bs k)) s = Inr (codeword bs k, s')"
  shows "array_decodeHuffman nb A s = Inr (Some (vals ! k), s')"
proof -
  have "k < count_below bs (Suc NUM_HUFFMAN_LENGTHS)"
    using k valid by (simp add: valid_length)
  then obtain i m where d: "1 \<le> i" "i \<le> NUM_HUFFMAN_LENGTHS" "m < bs i" "k = count_below bs i + m"
    using symbol_decompose by blast
  have cw: "codeword bs k = code_bits i (int (first_code bs i + m))"
    unfolding d(4) using valid d(1-3) by (rule codeword_canonical)
  have "read_bits nb i s = Inr (code_bits i (int (first_code bs i + m)), s')"
    using rd by (simp add: cw)
  then show ?thesis
    unfolding d(4) by (rule array_decode_codeword [OF valid d(1-3) A])
qed

section \<open>Huffman decoders: the two decoders agree\<close>

text \<open>
  C1. For a valid table specification, with the values inserted in the order of the
  specification, and a bit source whose next bits are the concatenation of the codewords of
  the values number \<open>ks\<close>: building both decoders succeeds, and decoding \<open>length ks\<close> symbols
  with the tree decoder gives the same result as with the array decoder, namely the values
  number \<open>ks\<close>, with the bit source left just behind the last codeword.
\<close>

theorem huffman_decoders_agree:
  "valid_table bs vals \<Longrightarrow> list_all (\<lambda>k. k < length vals) ks \<Longrightarrow>
   read_bits nb (length (concat (map (codeword bs) ks))) s
     = Inr (concat (map (codeword bs) ks), s') \<Longrightarrow>
   (case (tree_table bs vals, array_table bs vals) of
      (Inr t, Inr a) \<Rightarrow>
        decode_seq (tree_decodeHuffman nb t) (length ks) s
          = decode_seq (array_decodeHuffman nb a) (length ks) s
        \<and> decode_seq (array_decodeHuffman nb a) (length ks) s
          = Inr (map (\<lambda>k. Some (vals ! k)) ks, s')
    | _ \<Rightarrow> False)"
proof -
  assume valid: "valid_table bs vals" and ks: "list_all (\<lambda>k. k < length vals) ks"
    and rd: "read_bits nb (length (concat (map (codeword bs) ks))) s
     = Inr (concat (map (codeword bs) ks), s')"
  obtain t where t: "tree_table bs vals = Inr t" "filled bs vals (length vals) t"
    using tree_table_valid [OF valid] by blast
  obtain a where a: "array_table bs vals = Inr a"
    using array_table_valid [OF valid] by blast
  have "decode_seq (tree_decodeHuffman nb t) (length ks) s = Inr (map (\<lambda>k. Some (vals ! k)) ks, s')"
    using ks rd
    by (rule decode_seq_codewords [where cw = "codeword bs", rotated]) (rule tree_decode_codeword [OF t(2)])
  moreover have "decode_seq (array_decodeHuffman nb a) (length ks) s
      = Inr (map (\<lambda>k. Some (vals ! k)) ks, s')"
    using ks rd
    by (rule decode_seq_codewords [where cw = "codeword bs", rotated]) (rule array_decode_any [OF valid a])
  ultimately show ?thesis
    by (simp add: t a)
qed

lemma upt_lengths:
  "[Suc 0..<Suc NUM_HUFFMAN_LENGTHS] = [1, 2, 3, 4, 5, 6, 7, 8, 9, 10, 11, 12, 13, 14, 15, 16]"
  by (simp add: NUM_HUFFMAN_LENGTHS_def upt_rec)

lemma test_table_valid: "valid_table test_bits test_values"
  unfolding valid_table_def One_nat_def upt_lengths
  by (simp add: NUM_HUFFMAN_LENGTHS_def test_bits_def test_values_def)

theorem huffman_decoders_agree_witness:
  "valid_table test_bits test_values
   \<and> list_all (\<lambda>k. k < length test_values) [0, 1, 2, 3, 4, 5, 6, 7, 8, 9, 10, 11]
   \<and> read_bits list_nextBit
         (length (concat (map (codeword test_bits) [0, 1, 2, 3, 4, 5, 6, 7, 8, 9, 10, 11]))) test_stream
       = Inr (concat (map (codeword test_bits) [0, 1, 2, 3, 4, 5, 6, 7, 8, 9, 10, 11]), [1, 1, 1, 1, 1])
   \<and> (case (tree_table test_bits test_values, array_table test_bits test_values) of
        (Inr t, Inr a) \<Rightarrow>
          decode_seq (tree_decodeHuffman list_nextBit t)
              (length [0, 1, 2, 3, 4, 5, 6, 7, 8, 9, 10, 11 :: nat]) test_stream
            = decode_seq (array_decodeHuffman list_nextBit a)
                (length [0, 1, 2, 3, 4, 5, 6, 7, 8, 9, 10, 11 :: nat]) test_stream
          \<and> decode_seq (array_decodeHuffman list_nextBit a)
                (length [0, 1, 2, 3, 4, 5, 6, 7, 8, 9, 10, 11 :: nat]) test_stream
            = Inr (map (\<lambda>k. Some (test_values ! k)) [0, 1, 2, 3, 4, 5, 6, 7, 8, 9, 10, 11], [1, 1, 1, 1, 1])
      | _ \<Rightarrow> False)"
proof -
  have l: "list_all (\<lambda>k. k < length test_values) [0, 1, 2, 3, 4, 5, 6, 7, 8, 9, 10, 11]"
    by (simp add: test_values_def)
  have r: "read_bits list_nextBit
         (length (concat (map (codeword test_bits) [0, 1, 2, 3, 4, 5, 6, 7, 8, 9, 10, 11]))) test_stream
       = Inr (concat (map (codeword test_bits) [0, 1, 2, 3, 4, 5, 6, 7, 8, 9, 10, 11]), [1, 1, 1, 1, 1])"
    by code_simp
  show ?thesis
    using huffman_decoders_agree [OF test_table_valid l r] test_table_valid l r
    by (intro conjI)
qed

section \<open>Coefficient decoding: lemmas\<close>

subsection \<open>A property of the bit source carried through the decoders\<close>

lemma tree_decodeHuffman_inv':
  "\<forall>s b s'. P s \<longrightarrow> nb s = Inr (b, s') \<longrightarrow> P s' \<Longrightarrow>
   P s \<Longrightarrow> tree_decodeHuffman nb t s = Inr (v, s') \<Longrightarrow> P s'"
proof (induction nb t s rule: tree_decodeHuffman.induct)
  case (1 nb node s)
  note step = "1.prems"(1)
  from "1.prems"(3) obtain b s0 where b: "nb s = Inr (b, s0)"
    by (subst (asm) tree_decodeHuffman.simps) (auto split: sum.splits)
  have P0: "P s0" using step "1.prems"(2) b by blast
  show ?case
  proof (cases "descendNode node b")
    case None
    then show ?thesis
      using "1.prems"(3) b P0 by (subst (asm) tree_decodeHuffman.simps) simp
  next
    case (Some n)
    show ?thesis
    proof (cases "data n \<noteq> None")
      case True
      then show ?thesis
        using "1.prems"(3) b P0 Some by (subst (asm) tree_decodeHuffman.simps) simp
    next
      case False
      then have "tree_decodeHuffman nb n s0 = Inr (v, s')"
        using "1.prems"(3) b Some by (subst (asm) tree_decodeHuffman.simps) simp
      then show ?thesis
        using "1.IH" [OF b refl Some _ step P0] False by simp
    qed
  qed
qed

lemma array_loop_inv':
  "\<forall>s b s'. P s \<longrightarrow> nb s = Inr (b, s') \<longrightarrow> P s' \<Longrightarrow>
   P s \<Longrightarrow> array_loop nb mx i code s = Inr (i', code', s') \<Longrightarrow> P s'"
proof (induction nb mx i code s rule: array_loop.induct)
  case (1 nb maxcode i code s)
  note step = "1.prems"(1)
  show ?case
  proof (cases "arr_get maxcode i")
    case None
    then show ?thesis
      using "1.prems" by (subst (asm) array_loop.simps) simp
  next
    case (Some m)
    show ?thesis
    proof (cases "code > m")
      case False
      then show ?thesis
        using "1.prems" Some by (subst (asm) array_loop.simps) simp
    next
      case True
      from "1.prems"(3) obtain b s0 where b: "nb s = Inr (b, s0)"
        using Some True by (subst (asm) array_loop.simps) (auto split: sum.splits)
      have P0: "P s0" using step "1.prems"(2) b by blast
      have "array_loop nb maxcode (Suc i) (js_shl code 1 + b) s0 = Inr (i', code', s')"
        using "1.prems"(3) b Some True by (subst (asm) array_loop.simps) simp
      then show ?thesis
        using "1.IH" [OF Some True b refl step P0] by simp
    qed
  qed
qed

lemma decodeHuffman_inv:
  assumes step: "\<And>s b s'. P s \<Longrightarrow> nb s = Inr (b, s') \<Longrightarrow> P s'"
  shows "P s \<Longrightarrow> decodeHuffman nb dec s = Inr (v, s') \<Longrightarrow> P s'"
proof (cases dec)
  case (Tree t)
  assume "P s" "decodeHuffman nb dec s = Inr (v, s')"
  then show ?thesis
    using tree_decodeHuffman_inv' [of P nb s t v s'] step Tree
    by (simp add: decodeHuffman_def)
next
  case (Array a)
  assume P: "P s" and d: "decodeHuffman nb dec s = Inr (v, s')"
  obtain jj mn mx vp where tb: "decoder_tables a = (jj, mn, mx, vp)"
    by (cases "decoder_tables a") auto
  from d obtain c0 s0 where c0: "nb s = Inr (c0, s0)"
    using Array tb
    by (auto simp: decodeHuffman_def array_decodeHuffman_def bindE_def split: sum.splits)
  from d obtain i code where l: "array_loop nb mx 1 c0 s0 = Inr (i, code, s')"
    using Array tb c0
    by (auto simp: decodeHuffman_def array_decodeHuffman_def bindE_def split: sum.splits)
  have "P s0" using step P c0 by blast
  then show ?thesis
    using array_loop_inv' [of P nb s0 mx 1 c0 i code s'] step l by blast
qed

lemma receive_from_inv:
  assumes step: "\<And>s b s'. P s \<Longrightarrow> nb s = Inr (b, s') \<Longrightarrow> P s'"
  shows "P s \<Longrightarrow> receive_from nb n v s = Inr (r, s') \<Longrightarrow> P s'"
proof (induction n arbitrary: v s)
  case 0
  then show ?case by simp
next
  case (Suc n)
  from Suc.prems(2) obtain b s0 where b: "nb s = Inr (b, s0)"
    and r: "receive_from nb n (js_shl v 1 + b) s0 = Inr (r, s')"
    by (auto simp: bindE_def split: sum.splits)
  have "P s0" using step Suc.prems(1) b by blast
  then show ?case using Suc.IH r by blast
qed

subsection \<open>One iteration and a whole run of the loop of \<open>decodeACCoeffs\<close>\<close>

lemma decodeACCoeffs_from_step:
  "k < 64 \<Longrightarrow> decodeHuffman nb acTable s = Inr (rs, s1) \<Longrightarrow>
   decodeACCoeffs_from nb acTable k (s, zz) =
     (if getLowNibble (symbol rs) = 0
      then (if getHighNibble (symbol rs) = 15 then decodeACCoeffs_from nb acTable (k + 16) (s1, zz)
            else if getHighNibble (symbol rs) = 0 then Inr (s1, zz)
            else decodeACCoeffs_from nb acTable (k + 1) (s1, zz))
      else bindE (receive nb (nat (getLowNibble (symbol rs))) s1) (\<lambda>(amp, s2).
             decodeACCoeffs_from nb acTable (k + nat (getHighNibble (symbol rs)) + 1)
               (s2, arr_set zz (k + nat (getHighNibble (symbol rs)))
                      (Some (extend amp (nat (getLowNibble (symbol rs))))))))"
  by (subst decodeACCoeffs_from.simps) (simp add: bindE_def Let_def add.commute)

lemma decodeACCoeffs_from_done:
  "\<not> k < 64 \<Longrightarrow> decodeACCoeffs_from nb acTable k (s, zz) = Inr (s, zz)"
  by (subst decodeACCoeffs_from.simps) simp

lemma decodeACCoeffs_from_error:
  "k < 64 \<Longrightarrow> decodeHuffman nb acTable s = Inl e \<Longrightarrow>
   decodeACCoeffs_from nb acTable k (s, zz) = Inl e"
  by (subst decodeACCoeffs_from.simps) (simp add: bindE_def)

lemma getLowNibble_range: "0 \<le> getLowNibble x \<and> getLowNibble x < 16"
proof -
  have "toInt32 x AND 15 \<le> 15" by (rule AND_upper2) simp
  moreover have "toInt32 15 = 15" by (simp add: toInt32_def)
  ultimately show ?thesis by (simp add: getLowNibble_def js_and_def)
qed

text \<open>
  A run from position \<open>k\<close>: the property \<open>P\<close> of the bit source is kept, the positions below
  \<open>k\<close> are not written, and every position that differs afterwards holds a value that
  EXTEND returned for \<open>1 \<le> SSSS \<le> 15\<close> received bits.
\<close>

lemma decodeACCoeffs_from_run:
  assumes step: "\<And>s b s'. P s \<Longrightarrow> nb s = Inr (b, s') \<Longrightarrow> P s'"
    and val: "\<And>s n v s'. P s \<Longrightarrow> 0 < n \<Longrightarrow> n < 16 \<Longrightarrow> receive nb n s = Inr (v, s') \<Longrightarrow> Q (extend v n)"
  shows "P s \<Longrightarrow> decodeACCoeffs_from nb acTable k (s, zz) = Inr (s', zz') \<Longrightarrow>
     P s' \<and> (\<forall>j. j < k \<longrightarrow> arr_get zz' j = arr_get zz j)
          \<and> (\<forall>j. arr_get zz' j = arr_get zz j \<or> (\<exists>w. arr_get zz' j = Some w \<and> Q w))"
proof (induction "64 - k" arbitrary: k s zz rule: less_induct)
  case less
  show ?case
  proof (cases "k < 64")
    case False
    then have "s' = s" "zz' = zz"
      using less.prems(2) by (simp_all add: decodeACCoeffs_from_done)
    then show ?thesis using less.prems(1) by simp
  next
    case True
    obtain rs s1 where d: "decodeHuffman nb acTable s = Inr (rs, s1)"
      using less.prems(2) True
      by (cases "decodeHuffman nb acTable s") (auto simp: decodeACCoeffs_from_error)
    have P1: "P s1"
      using decodeHuffman_inv [of P nb s acTable rs s1] step less.prems(1) d by blast
    note eq = decodeACCoeffs_from_step [OF True d, of zz]
    define ssss where "ssss = getLowNibble (symbol rs)"
    define rrrr where "rrrr = getHighNibble (symbol rs)"
    consider (zrl) "ssss = 0" "rrrr = 15" | (eob) "ssss = 0" "rrrr = 0"
      | (bad) "ssss = 0" "rrrr \<noteq> 15" "rrrr \<noteq> 0" | (coef) "ssss \<noteq> 0"
      by blast
    then show ?thesis
    proof cases
      case zrl
      then have r: "decodeACCoeffs_from nb acTable (k + 16) (s1, zz) = Inr (s', zz')"
        using less.prems(2) eq by (simp add: ssss_def rrrr_def)
      have "64 - (k + 16) < 64 - k" using True by simp
      from less.hyps [OF this P1 r] show ?thesis by simp
    next
      case eob
      then have "s' = s1" "zz' = zz"
        using less.prems(2) eq by (simp_all add: ssss_def rrrr_def)
      then show ?thesis using P1 by simp
    next
      case bad
      then have r: "decodeACCoeffs_from nb acTable (k + 1) (s1, zz) = Inr (s', zz')"
        using less.prems(2) eq by (simp add: ssss_def rrrr_def)
      have "64 - (k + 1) < 64 - k" using True by simp
      from less.hyps [OF this P1 r] show ?thesis by simp
    next
      case coef
      define k' where "k' = k + nat rrrr"
      obtain amp s2 where rc: "receive nb (nat ssss) s1 = Inr (amp, s2)"
        and r: "decodeACCoeffs_from nb acTable (k' + 1)
                  (s2, arr_set zz k' (Some (extend amp (nat ssss)))) = Inr (s', zz')"
        using less.prems(2) eq coef
        by (auto simp: ssss_def rrrr_def k'_def bindE_def split: sum.splits)
      have P2: "P s2"
        using receive_from_inv [of P nb s1 "nat ssss" 0 amp s2] step P1 rc
        unfolding receive_def by blast
      have rng: "0 < nat ssss" "nat ssss < 16"
        using coef getLowNibble_range [of "symbol rs"] unfolding ssss_def by linarith+
      have Qv: "Q (extend amp (nat ssss))"
        using P1 rng rc by (rule val)
      have "64 - (k' + 1) < 64 - k" using True by (simp add: k'_def)
      from less.hyps [OF this P2 r]
      have IH: "P s'"
        "\<forall>j. j < k' + 1 \<longrightarrow> arr_get zz' j = arr_get (arr_set zz k' (Some (extend amp (nat ssss)))) j"
        "\<forall>j. arr_get zz' j = arr_get (arr_set zz k' (Some (extend amp (nat ssss)))) j
            \<or> (\<exists>w. arr_get zz' j = Some w \<and> Q w)"
        by blast+
      have a: "\<forall>j. j < k \<longrightarrow> arr_get zz' j = arr_get zz j"
        using IH(2) by (auto simp: arr_get_set k'_def)
      have b: "\<forall>j. arr_get zz' j = arr_get zz j \<or> (\<exists>w. arr_get zz' j = Some w \<and> Q w)"
      proof
        fix j
        show "arr_get zz' j = arr_get zz j \<or> (\<exists>w. arr_get zz' j = Some w \<and> Q w)"
          using IH(3) [rule_format, of j] Qv by (auto simp: arr_get_set split: if_splits)
      qed
      show ?thesis using IH(1) a b by blast
    qed
  qed
qed

subsection \<open>EXTEND on the bits of RECEIVE\<close>

lemma extend_range:
  assumes "1 \<le> t" "t \<le> 16" "0 \<le> v" "v < 2 ^ t"
  shows "extend v t \<noteq> 0 \<and> 2 ^ (t - 1) \<le> \<bar>extend v t\<bar> \<and> \<bar>extend v t\<bar> \<le> 2 ^ t - 1"
proof -
  obtain u where t: "t = Suc u" using assms(1) by (cases t) auto
  have e: "extend v (Suc u) = (if v < 2 ^ u then v - 2 * 2 ^ u + 1 else v)"
    using assms(2) by (simp add: extend_closed t)
  have p: "(0::int) < 2 ^ u" by simp
  have "extend v (Suc u) \<noteq> 0 \<and> 2 ^ u \<le> \<bar>extend v (Suc u)\<bar>
      \<and> \<bar>extend v (Suc u)\<bar> \<le> 2 * 2 ^ u - 1"
    using assms(3,4) p unfolding e t by (auto simp: abs_if)
  then show ?thesis by (simp add: t)
qed

lemma loadByte_byte:
  "loadByte st = Inr (r1, im1) \<Longrightarrow> 0 \<le> byte r1 \<and> byte r1 < 256"
proof -
  have u: "\<And>w :: 8 word. 0 \<le> uint w \<and> uint w < 256"
    using uint_lt2p [where 'a = 8] by simp
  assume "loadByte st = Inr (r1, im1)"
  then show ?thesis
    using u
    by (cases st)
       (auto simp: loadByte_def bindE_def nextByte_def nextWord_def parseDNL_def Let_def
             split: if_splits sum.splits prod.splits)
qed

lemma nextBit_bit:
  assumes "0 \<le> byte r" "byte r < 256" "nextBit (r, im) = Inr (b, (r', im'))"
  shows "(b = 0 \<or> b = 1) \<and> 0 \<le> byte r' \<and> byte r' < 256"
proof -
  obtain r1 im1 where l: "(if cnt r = 0 then loadByte (r, im) else Inr (r, im)) = Inr (r1, im1)"
    using assms(3) by (auto simp: nextBit_def bindE_def split: sum.splits)
  have b1: "0 \<le> byte r1" "byte r1 < 256"
    using l assms(1,2) loadByte_byte [of "(r, im)" r1 im1] by (auto split: if_splits)
  have "b = js_sar (byte r1) 7" "byte r' = js_and (js_shl (byte r1) 1) 0xFF"
    using assms(3) l by (auto simp: nextBit_def bindE_def Let_def)
  then show ?thesis
    using b1 take_bit_byte_range [of "byte r1 * 2"]
    by (simp add: js_sar_byte js_next_byte)
qed

lemma receive_from_range:
  assumes step: "\<And>s b s'. P s \<Longrightarrow> nb s = Inr (b, s') \<Longrightarrow> P s' \<and> (b = 0 \<or> b = 1)"
  shows "P s \<Longrightarrow> 0 \<le> v \<Longrightarrow> v < 2 ^ m \<Longrightarrow> m + n \<le> 30 \<Longrightarrow>
     receive_from nb n v s = Inr (r, s') \<Longrightarrow> 0 \<le> r \<and> r < 2 ^ (m + n)"
proof (induction n arbitrary: v s m)
  case 0
  then show ?case by simp
next
  case (Suc n)
  from Suc.prems(5) obtain b s0 where b: "nb s = Inr (b, s0)"
    and r: "receive_from nb n (js_shl v 1 + b) s0 = Inr (r, s')"
    by (auto simp: bindE_def split: sum.splits)
  have P0: "P s0" and bb: "b = 0 \<or> b = 1" using step Suc.prems(1) b by blast+
  have "(2::int) ^ m \<le> 2 ^ 30" using Suc.prems(4) by (intro power_increasing) auto
  then have "js_shl v 1 = v * 2"
    using Suc.prems(2,3) by (intro js_shl_double) auto
  then have v': "0 \<le> js_shl v 1 + b" "js_shl v 1 + b < 2 ^ Suc m"
    using bb Suc.prems(2,3) by auto
  have "0 \<le> r \<and> r < 2 ^ (Suc m + n)"
    using P0 v' _ r by (rule Suc.IH) (use Suc.prems(4) in simp)
  then show ?case by simp
qed

lemma written_nonzero:
  assumes "0 \<le> byte r" "byte r < 256"
    and "decodeACCoeffs_from nextBit acTable k ((r, im), zz) = Inr (st', zz')"
  shows "arr_get zz' j = arr_get zz j \<or> (\<exists>w. arr_get zz' j = Some w \<and> w \<noteq> 0)"
proof -
  define P where "P = (\<lambda>st :: reader \<times> img. 0 \<le> byte (fst st) \<and> byte (fst st) < 256)"
  have step: "\<And>s b s'. P s \<Longrightarrow> nextBit s = Inr (b, s') \<Longrightarrow> P s' \<and> (b = 0 \<or> b = 1)"
  proof -
    fix s :: "reader \<times> img" and b s'
    assume "P s" "nextBit s = Inr (b, s')"
    then show "P s' \<and> (b = 0 \<or> b = 1)"
      using nextBit_bit [of "fst s" "snd s" b "fst s'" "snd s'"] by (simp add: P_def)
  qed
  have val: "\<And>s n v s'. P s \<Longrightarrow> 0 < n \<Longrightarrow> n < 16 \<Longrightarrow> receive nextBit n s = Inr (v, s')
      \<Longrightarrow> extend v n \<noteq> 0"
  proof -
    fix s :: "reader \<times> img" and n v s'
    assume a: "P s" "0 < n" "n < 16" "receive nextBit n s = Inr (v, s')"
    have "0 \<le> v \<and> v < 2 ^ (0 + n)"
      using receive_from_range [of P nextBit s 0 0 n v s'] step a unfolding receive_def
      by auto
    then show "extend v n \<noteq> 0"
      using extend_range [of n v] a(2,3) by simp
  qed
  have "P (r, im)" using assms(1,2) by (simp add: P_def)
  then show ?thesis
    using decodeACCoeffs_from_run [of P nextBit "\<lambda>w. w \<noteq> 0" "(r, im)" acTable k zz st' zz']
      step val assms(3) by blast
qed


subsection \<open>The bit reader and the DC predictors\<close>







subsection \<open>The size of a decoded difference\<close>








subsection \<open>Start of scan and restart\<close>



section \<open>Coefficient decoding: the claims\<close>

text \<open>
  C10. For every length \<open>t\<close> from 1 to 16 and every raw value \<open>0 \<le> v < 2^t\<close>, \<open>extend v t\<close> is
  not zero and its absolute value lies between \<open>2^(t-1)\<close> and \<open>2^t - 1\<close>. Consequently
  \<open>decodeACCoeffs\<close>, reading from a reader whose shift register holds a byte, writes only
  nonzero coefficients: whatever the array held before, every position whose content
  differs after the call holds a nonzero number.
\<close>

theorem extend_nonzero:
  "(1 \<le> t \<and> t \<le> 16 \<and> 0 \<le> v \<and> v < 2 ^ t \<longrightarrow>
      extend v t \<noteq> 0 \<and> 2 ^ (t - 1) \<le> \<bar>extend v t\<bar> \<and> \<bar>extend v t\<bar> \<le> 2 ^ t - 1)
   \<and> (0 \<le> byte r \<and> byte r < 256
      \<and> decodeACCoeffs nextBit acTable ((r, im), zz) = Inr (st', zz') \<longrightarrow>
      arr_get zz' j = arr_get zz j \<or> (\<exists>w. arr_get zz' j = Some w \<and> w \<noteq> 0))"
  using extend_range [of t v] written_nonzero [of r acTable 1 im zz st' zz' j]
  by (simp add: decodeACCoeffs_def)

lemma test_run:
  "decodeACCoeffs nextBit test_acTable ((reset [0xE0], \<lparr>dcpred = [], frameY = 0\<rparr>), replicate 64 (Some 0))
     = Inr (((reset [0xE0])\<lparr>index := 0, cnt := 3\<rparr>, \<lparr>dcpred = [], frameY = 0\<rparr>),
            (replicate 64 (Some 0))[3 := Some 1])"
  by code_simp

theorem extend_nonzero_witness:
  "(1::nat) \<le> 3 \<and> (3::nat) \<le> 16 \<and> (0::int) \<le> 5 \<and> (5::int) < 2 ^ 3
   \<and> extend 5 3 \<noteq> 0 \<and> 2 ^ (3 - 1) \<le> \<bar>extend 5 3\<bar> \<and> \<bar>extend 5 3\<bar> \<le> 2 ^ 3 - 1
   \<and> 0 \<le> byte (reset [0xE0]) \<and> byte (reset [0xE0]) < 256
   \<and> decodeACCoeffs nextBit test_acTable
        ((reset [0xE0], \<lparr>dcpred = [], frameY = 0\<rparr>), replicate 64 (Some 0))
      = Inr (((reset [0xE0])\<lparr>index := 0, cnt := 3\<rparr>, \<lparr>dcpred = [], frameY = 0\<rparr>),
             (replicate 64 (Some 0))[3 := Some 1])
   \<and> (arr_get ((replicate 64 (Some (0::int)))[3 := Some 1]) 3 = arr_get (replicate 64 (Some 0)) 3
       \<or> (\<exists>w. arr_get ((replicate 64 (Some (0::int)))[3 := Some 1]) 3 = Some w \<and> w \<noteq> 0))"
  using extend_nonzero [where t = 3 and v = 5 and r = "reset [0xE0]" and acTable = test_acTable
      and im = "\<lparr>dcpred = [], frameY = 0\<rparr>" and zz = "replicate 64 (Some 0)"
      and st' = "((reset [0xE0])\<lparr>index := 0, cnt := 3\<rparr>, \<lparr>dcpred = [], frameY = 0\<rparr>)"
      and zz' = "(replicate 64 (Some 0))[3 := Some 1]" and j = 3]
    test_run
  by (simp add: reset_def)












end
